theory Spec2Isabelle
  imports Complex_Main
begin

section \<open>The progress bar of amp-story (extensions/amp-story/1.0/progress-bar.js)\<close>

text \<open>
  The class \<^verbatim>\<open>ProgressBar\<close> is embedded as a record of its fields together with
  the part of the document it writes to. JavaScript numbers that hold indices and counts
  are \<open>int\<close> (they stay far below \<open>2^53\<close>, where doubles are exact); pixel values and
  progress values are \<open>real\<close>. Elements created by \<^verbatim>\<open>document.createElement\<close> are
  handles (\<open>nat\<close>) into two style stores, so that the array \<^verbatim>\<open>segments_\<close> and the
  child list of the root element can alias the same element, as they do in the source.
  Names are the source's, without the trailing underscore of its private members (a name
  ending in an underscore is not a constant's name in Isabelle).

  The callbacks handed to \<^verbatim>\<open>resources_.mutateElement\<close> and
  \<^verbatim>\<open>resources_.measureElement\<close> are run at the place of the call: the host serialises
  callbacks and every claim below concerns the values written, not the frame in which they
  land.
\<close>

subsection \<open>Constants\<close>

definition ELLIPSE_WIDTH_PX :: real where
  "ELLIPSE_WIDTH_PX = 2"

definition SEGMENTS_MARGIN_PX :: real where
  "SEGMENTS_MARGIN_PX = 2"

definition PROGRESS_BAR_PADDING_PX :: real where
  "PROGRESS_BAR_PADDING_PX = 4"

definition MAX_SEGMENTS :: int where
  "MAX_SEGMENTS = 20"

definition SEGMENT_INCREMENT :: int where
  "SEGMENT_INCREMENT = 5"

text \<open>The value of the CSS \<^verbatim>\<open>transition\<close> property written on a progress value:
  \<^verbatim>\<open>'none'\<close>, \<^verbatim>\<open>TRANSITION_EASE\<close> or \<^verbatim>\<open>TRANSITION_LINEAR\<close>.\<close>

datatype transition = TRANSITION_NONE | TRANSITION_EASE | TRANSITION_LINEAR

text \<open>\<^verbatim>\<open>devAssert(..., 'Invalid segment-id passed to progress-bar')\<close> failing: the
  assertion throws, as it does wherever assertions are compiled in.\<close>

datatype error = InvalidSegmentId

subsection \<open>State\<close>

type_synonym element = nat

record bar =
  isBuilt :: bool
  segmentCount :: int
  activeSegmentIndex :: int
  activeSegmentProgress :: real
  segmentIdMap :: "string \<rightharpoonup> int"
  activeSegmentId :: string
  segments :: "element list"
  firstExpandedSegmentIndex :: int
  barWidthPx :: real
  \<comment> \<open>the document: children of \<^verbatim>\<open>root_\<close>, the allocator of elements, and the styles\<close>
  rootChildren :: "element list"
  nextElement :: element
  segmentStyle :: "element \<rightharpoonup> real \<times> real"
  valueStyle :: "element \<rightharpoonup> real \<times> transition"
  animateClass :: bool
  dirRtl :: bool
  \<comment> \<open>the store's \<^verbatim>\<open>StateProperty.RTL_STATE\<close>\<close>
  storeRtl :: bool
  \<comment> \<open>the calls of \<^verbatim>\<open>render_\<close> so far, each with its \<^verbatim>\<open>shouldAnimate\<close>\<close>
  renderLog :: "bool list"

text \<open>
  \<open>segmentStyle e = Some (x, k)\<close>: the \<^verbatim>\<open>li\<close> element \<open>e\<close> carries
  \<^verbatim>\<open>transform: translate3d(x px, 0px, 0.00001px) scaleX(k)\<close>.
  \<open>valueStyle e = Some (p, t)\<close>: the progress value inside \<open>e\<close> carries
  \<^verbatim>\<open>transform: scale(p,1)\<close> and \<^verbatim>\<open>transition: t\<close>.
\<close>

definition constructor :: "bool \<Rightarrow> bar" where
  "constructor rtl =
     \<lparr> isBuilt = False, segmentCount = 0, activeSegmentIndex = 0,
       activeSegmentProgress = 1, segmentIdMap = Map.empty, activeSegmentId = [],
       segments = [], firstExpandedSegmentIndex = 0, barWidthPx = 0,
       rootChildren = [], nextElement = 0, segmentStyle = Map.empty,
       valueStyle = Map.empty, animateClass = False, dirRtl = False, storeRtl = rtl,
       renderLog = [] \<rparr>"

subsection \<open>JavaScript helpers\<close>

text \<open>\<^verbatim>\<open>a % b\<close>: the remainder takes the sign of the dividend.\<close>

definition js_rem :: "int \<Rightarrow> int \<Rightarrow> int" where
  "js_rem a b = sgn a * (\<bar>a\<bar> mod \<bar>b\<bar>)"

text \<open>\<^verbatim>\<open>xs[i]\<close>: \<^verbatim>\<open>undefined\<close> (here \<open>None\<close>) outside the array.\<close>

definition js_index :: "'a list \<Rightarrow> int \<Rightarrow> 'a option" where
  "js_index xs i = (if 0 \<le> i \<and> i < int (length xs) then Some (xs ! nat i) else None)"

text \<open>\<^verbatim>\<open>hasOwn(obj, key)\<close> on an object made by \<^verbatim>\<open>map()\<close> (no prototype).\<close>

definition hasOwn :: "(string \<rightharpoonup> int) \<Rightarrow> string \<Rightarrow> bool" where
  "hasOwn obj key = (obj key \<noteq> None)"

subsection \<open>Layout\<close>

definition getNextEllipsisCount :: "bar \<Rightarrow> int" where
  "getNextEllipsisCount s =
     (let nextPagesCount = segmentCount s - (firstExpandedSegmentIndex s + MAX_SEGMENTS)
      in if nextPagesCount > 3 then 3 else max nextPagesCount 0)"

definition getPrevEllipsisCount :: "bar \<Rightarrow> int" where
  "getPrevEllipsisCount s = min 3 (firstExpandedSegmentIndex s)"

text \<open>With no segment the source divides by zero; the quotient is then never used, since
  the loop of \<^verbatim>\<open>render_\<close> has no iteration.\<close>

definition getSegmentWidth :: "bar \<Rightarrow> real" where
  "getSegmentWidth s =
     (let nextEllipsisCount = getNextEllipsisCount s;
          prevEllipsisCount = getPrevEllipsisCount s;
          totalEllipsisWidth =
            real_of_int (nextEllipsisCount + prevEllipsisCount) *
            (ELLIPSE_WIDTH_PX + SEGMENTS_MARGIN_PX);
          totalSegmentsWidth = barWidthPx s - totalEllipsisWidth
      in totalSegmentsWidth / real_of_int (min (segmentCount s) MAX_SEGMENTS) -
         SEGMENTS_MARGIN_PX)"

definition transform :: "element \<Rightarrow> real \<Rightarrow> real \<Rightarrow> bar \<Rightarrow> bar" where
  "transform segment translateX width s =
     (let translateX' = (if storeRtl s then translateX * (- 1) else translateX)
      in s\<lparr>segmentStyle := (segmentStyle s)(segment \<mapsto> (translateX', width / ELLIPSE_WIDTH_PX))\<rparr>)"

text \<open>The \<^verbatim>\<open>for\<close> loop of \<^verbatim>\<open>render_\<close>. Reading \<^verbatim>\<open>segments_[index]\<close> past the
  array gives \<^verbatim>\<open>undefined\<close>, on which \<^verbatim>\<open>setAttribute\<close> throws inside the mutate
  callback: the loop stops there.\<close>

function render_for :: "real \<Rightarrow> int \<Rightarrow> real \<Rightarrow> bar \<Rightarrow> bar" where
  "render_for segmentWidth index translateX s =
     (if index < segmentCount s then
        (let width =
               (if index \<ge> firstExpandedSegmentIndex s \<and>
                   index < firstExpandedSegmentIndex s + MAX_SEGMENTS
                then segmentWidth else ELLIPSE_WIDTH_PX)
         in case js_index (segments s) index of
              None \<Rightarrow> s
            | Some segment \<Rightarrow>
                render_for segmentWidth (index + 1) (translateX + width + SEGMENTS_MARGIN_PX)
                  (transform segment translateX width s))
      else s)"
  by pat_completeness auto
termination
  by (relation "measure (\<lambda>(w, i, t, s). nat (segmentCount s - i))")
     (auto simp: transform_def)

declare render_for.simps [simp del]

definition render :: "bool \<Rightarrow> bar \<Rightarrow> bar" where
  "render shouldAnimate s =
     (let segmentWidth = getSegmentWidth s;
          translateX =
            - real_of_int (firstExpandedSegmentIndex s - getPrevEllipsisCount s) *
            (ELLIPSE_WIDTH_PX + SEGMENTS_MARGIN_PX);
          s' = render_for segmentWidth 0 translateX s
      in s'\<lparr>animateClass := shouldAnimate, renderLog := renderLog s' @ [shouldAnimate]\<rparr>)"

definition replay :: "bar \<Rightarrow> bar" where
  "replay s = render False (s\<lparr>firstExpandedSegmentIndex := 0\<rparr>)"

definition checkIndexForOverflow :: "bar \<Rightarrow> bar" where
  "checkIndexForOverflow s =
     (if activeSegmentIndex s \<ge> firstExpandedSegmentIndex s + MAX_SEGMENTS then
        (let nextLimit = firstExpandedSegmentIndex s + MAX_SEGMENTS + SEGMENT_INCREMENT - 1
         in render True
              (s\<lparr>firstExpandedSegmentIndex :=
                   firstExpandedSegmentIndex s +
                   (if nextLimit < segmentCount s then SEGMENT_INCREMENT
                    else segmentCount s - (firstExpandedSegmentIndex s + MAX_SEGMENTS))\<rparr>))
      else if activeSegmentIndex s < firstExpandedSegmentIndex s then
        render True
          (s\<lparr>firstExpandedSegmentIndex :=
               firstExpandedSegmentIndex s -
               (if firstExpandedSegmentIndex s - SEGMENT_INCREMENT < 0
                then firstExpandedSegmentIndex s else SEGMENT_INCREMENT)\<rparr>)
      else s)"

definition onRtlStateUpdate :: "bool \<Rightarrow> bar \<Rightarrow> bar" where
  "onRtlStateUpdate rtlState s = s\<lparr>dirRtl := rtlState\<rparr>"

text \<open>\<open>pageWidth\<close> is what \<^verbatim>\<open>getBoundingClientRect().width\<close> of the first page
  measures when the callback runs.\<close>

definition onResize :: "real \<Rightarrow> bar \<Rightarrow> bar" where
  "onResize pageWidth s =
     render False (s\<lparr>barWidthPx := pageWidth - PROGRESS_BAR_PADDING_PX\<rparr>)"

subsection \<open>Registry\<close>

definition buildSegmentEl :: "bar \<Rightarrow> bar" where
  "buildSegmentEl s =
     (let segmentProgressBar = nextElement s
      in s\<lparr>nextElement := Suc (nextElement s),
           rootChildren := rootChildren s @ [segmentProgressBar],
           segments := segments s @ [segmentProgressBar]\<rparr>)"

definition clear :: "bar \<Rightarrow> bar" where
  "clear s = s\<lparr>rootChildren := [], segmentIdMap := Map.empty, segmentCount := 0\<rparr>"

definition addSegment :: "string \<Rightarrow> bar \<Rightarrow> bar" where
  "addSegment segId s =
     buildSegmentEl
       (s\<lparr>segmentIdMap := (segmentIdMap s)(segId \<mapsto> segmentCount s),
          segmentCount := segmentCount s + 1\<rparr>)"

definition assertVaildSegmentId :: "string \<Rightarrow> bar \<Rightarrow> error + unit" where
  "assertVaildSegmentId segmentId s =
     (if hasOwn (segmentIdMap s) segmentId then Inr () else Inl InvalidSegmentId)"

subsection \<open>Progress\<close>

text \<open>\<^verbatim>\<open>scopedQuerySelector\<close> for the progress value of the \<open>n\<close>-th child of the root
  (\<^verbatim>\<open>:nth-child\<close> counts from 1); \<^verbatim>\<open>null\<close> when there is no such child.\<close>

definition queryProgressValue :: "bar \<Rightarrow> int \<Rightarrow> element option" where
  "queryProgressValue s nthChildIndex = js_index (rootChildren s) (nthChildIndex - 1)"

text \<open>On \<^verbatim>\<open>null\<close> the mutate callback fails at \<^verbatim>\<open>assertElement\<close> and writes
  nothing.\<close>

definition updateProgressByIndex :: "int \<Rightarrow> real \<Rightarrow> bool \<Rightarrow> bar \<Rightarrow> bar" where
  "updateProgressByIndex segmentIndex progress withTransition s =
     (let nthChildIndex = segmentIndex + 1
      in case queryProgressValue s nthChildIndex of
           None \<Rightarrow> s
         | Some progressEl \<Rightarrow>
             (let transition =
                    (if withTransition then
                       (if progress = 1 \<or> progress = 0 then TRANSITION_EASE
                        else TRANSITION_LINEAR)
                     else TRANSITION_NONE)
              in s\<lparr>valueStyle := (valueStyle s)(progressEl \<mapsto> (progress, transition))\<rparr>))"

definition getInitialFirstExpandedSegmentIndex :: "int \<Rightarrow> bar \<Rightarrow> bar" where
  "getInitialFirstExpandedSegmentIndex segmentIndex s =
     (if segmentIndex > MAX_SEGMENTS \<and> segmentIndex + MAX_SEGMENTS < segmentCount s then
        s\<lparr>firstExpandedSegmentIndex := segmentIndex - js_rem segmentIndex MAX_SEGMENTS\<rparr>
      else if segmentIndex > MAX_SEGMENTS then
        s\<lparr>firstExpandedSegmentIndex := segmentCount s - MAX_SEGMENTS\<rparr>
      else s)"

definition shouldAnimatePreviousSegment :: "int \<Rightarrow> real \<Rightarrow> int \<Rightarrow> real \<Rightarrow> bool" where
  "shouldAnimatePreviousSegment activeIndex activeProgress prevIndex
       prevProgress =
     (let a0 = False;
          a1 = (if prevProgress = 1 \<and> activeProgress = 1 then True else a0);
          a2 = (if activeIndex > prevIndex \<and> activeProgress \<noteq> 1
                then True else a1);
          a3 = (if prevIndex > activeIndex \<and> activeProgress = 1
                then True else a2)
      in a3)"

text \<open>The \<^verbatim>\<open>for\<close> loop of \<^verbatim>\<open>updateSegments_\<close>.\<close>

function updateSegments_for :: "int \<Rightarrow> int \<Rightarrow> bool \<Rightarrow> int \<Rightarrow> bar \<Rightarrow> bar" where
  "updateSegments_for activeIndex prevIndex shouldAnimate i s =
     (if i < segmentCount s then
        (if i = activeIndex then
           updateSegments_for activeIndex prevIndex shouldAnimate (i + 1) s
         else
           (let progress = (if i < activeIndex then 1 else 0);
                withTransition = (if shouldAnimate then i = prevIndex else False)
            in updateSegments_for activeIndex prevIndex shouldAnimate (i + 1)
                 (updateProgressByIndex i progress withTransition s)))
      else s)"
  by pat_completeness auto
termination
  by (relation "measure (\<lambda>(a, p, b, i, s). nat (segmentCount s - i))")
     (auto simp: updateProgressByIndex_def split: option.splits)

declare updateSegments_for.simps [simp del]

definition updateSegments :: "int \<Rightarrow> real \<Rightarrow> int \<Rightarrow> real \<Rightarrow> bar \<Rightarrow> bar" where
  "updateSegments activeIndex activeProgress prevIndex
       prevProgress s =
     updateSegments_for activeIndex prevIndex
       (shouldAnimatePreviousSegment activeIndex activeProgress
          prevIndex prevProgress) 0 s"

text \<open>\<^verbatim>\<open>updateProgress\<close> returns the outcome and the state it leaves: on a failed
  assertion, the state at the throw. The lookup that follows the assertion finds the index
  (its \<open>None\<close> branch is never taken). The root element exists whenever an id is
  registered, since ids are registered by \<^verbatim>\<open>build()\<close> only, so \<^verbatim>\<open>getRoot()\<close> does not
  fail after the assertion has passed.\<close>

definition updateProgress :: "string \<Rightarrow> real \<Rightarrow> bool \<Rightarrow> bar \<Rightarrow> (error + unit) \<times> bar" where
  "updateProgress segmentId progress updateAllSegments s =
     (case assertVaildSegmentId segmentId s of
        Inl e \<Rightarrow> (Inl e, s)
      | Inr _ \<Rightarrow>
          (case segmentIdMap s segmentId of
             None \<Rightarrow> (Inl InvalidSegmentId, s)
           | Some segmentIndex \<Rightarrow>
               (let s1 = updateProgressByIndex segmentIndex progress True s;
                    s2 = (if activeSegmentIndex s1 = 0 then
                            render False (getInitialFirstExpandedSegmentIndex segmentIndex s1)
                          else s1);
                    s3 = (if activeSegmentIndex s2 \<noteq> segmentIndex \<or> updateAllSegments then
                            updateSegments segmentIndex progress (activeSegmentIndex s2)
                              (activeSegmentProgress s2) s2
                          else s2);
                    s4 = s3\<lparr>activeSegmentProgress := progress,
                            activeSegmentIndex := segmentIndex,
                            activeSegmentId := segmentId\<rparr>
                in (Inr (), checkIndexForOverflow s4))))"

subsection \<open>Building, and the subscription to the page ids\<close>

text \<open>The callback subscribed to \<^verbatim>\<open>StateProperty.PAGE_IDS\<close>; \<open>addPageId\<close> is the
  function it hands to \<^verbatim>\<open>pageIds.forEach\<close>.\<close>

definition addPageId :: "string \<Rightarrow> bar \<Rightarrow> bar" where
  "addPageId segId s = (if segmentIdMap s segId = None then addSegment segId s else s)"

definition onPageIds :: "string list \<Rightarrow> bar \<Rightarrow> (error + unit) \<times> bar" where
  "onPageIds pageIds s =
     (let s1 = (if isBuilt s then clear s else s);
          s2 = fold addPageId pageIds s1
      in if isBuilt s2 then
           updateProgress (activeSegmentId s2) (activeSegmentProgress s2) True s2
         else (Inr (), s2))"

text \<open>\<^verbatim>\<open>build()\<close>, with the page ids the store holds and the width measured on the
  first page. Both subscriptions are called to initialise while \<^verbatim>\<open>isBuilt_\<close> is still
  false.\<close>

definition build :: "string list \<Rightarrow> real \<Rightarrow> bar \<Rightarrow> bar" where
  "build pageIds pageWidth s =
     (if isBuilt s then s
      else
        (let s1 = snd (onPageIds pageIds s);
             s2 = onRtlStateUpdate (storeRtl s1) s1;
             s3 = s2\<lparr>barWidthPx := pageWidth - PROGRESS_BAR_PADDING_PX\<rparr>
         in s3\<lparr>isBuilt := True\<rparr>))"

text \<open>The store changes its direction flag and notifies the subscriber.\<close>

definition rtlStateChange :: "bool \<Rightarrow> bar \<Rightarrow> bar" where
  "rtlStateChange rtlState s = onRtlStateUpdate rtlState (s\<lparr>storeRtl := rtlState\<rparr>)"

subsection \<open>Reachable states\<close>

text \<open>The states a progress bar goes through: it is constructed, built, and then driven
  by the host's callbacks (a new list of page ids, replay, resize, a change of direction)
  and by \<^verbatim>\<open>updateProgress\<close>. The callbacks are subscribed by \<^verbatim>\<open>build()\<close>.\<close>

inductive reachable :: "bar \<Rightarrow> bool" where
  reach_constructor: "reachable (constructor rtl)"
| reach_build: "reachable s \<Longrightarrow> reachable (build pageIds pageWidth s)"
| reach_onPageIds: "reachable s \<Longrightarrow> isBuilt s \<Longrightarrow> reachable (snd (onPageIds pageIds s))"
| reach_updateProgress:
    "reachable s \<Longrightarrow> reachable (snd (updateProgress segmentId progress updateAllSegments s))"
| reach_replay: "reachable s \<Longrightarrow> isBuilt s \<Longrightarrow> reachable (replay s)"
| reach_onResize: "reachable s \<Longrightarrow> isBuilt s \<Longrightarrow> reachable (onResize pageWidth s)"
| reach_rtlStateChange: "reachable s \<Longrightarrow> isBuilt s \<Longrightarrow> reachable (rtlStateChange rtlState s)"

text \<open>The registry as the document shows it: the children of the root are as many as
  \<^verbatim>\<open>segmentCount_\<close>, they are different elements, and the map sends the registered ids
  one-to-one onto the positions \<open>0 .. segmentCount - 1\<close>.\<close>

definition registryOk :: "bar \<Rightarrow> bool" where
  "registryOk s =
     (0 \<le> segmentCount s \<and>
      int (length (rootChildren s)) = segmentCount s \<and>
      distinct (rootChildren s) \<and>
      (\<forall>e \<in> set (rootChildren s). e < nextElement s) \<and>
      (\<forall>k i. segmentIdMap s k = Some i \<longrightarrow> 0 \<le> i \<and> i < segmentCount s) \<and>
      (\<forall>k k' i. segmentIdMap s k = Some i \<longrightarrow> segmentIdMap s k' = Some i \<longrightarrow> k = k') \<and>
      (\<forall>i. 0 \<le> i \<and> i < segmentCount s \<longrightarrow> (\<exists>k. segmentIdMap s k = Some i)))"

text \<open>The style of the progress value of the segment at a position of the bar.\<close>

definition fillOf :: "bar \<Rightarrow> int \<Rightarrow> (real \<times> transition) option" where
  "fillOf s i = (case js_index (rootChildren s) i of None \<Rightarrow> None | Some e \<Rightarrow> valueStyle s e)"

text \<open>The fill written on the segment at a position, and whether that write carries a
  transition (the segment animates).\<close>

definition fillValue :: "bar \<Rightarrow> int \<Rightarrow> real option" where
  "fillValue s i = map_option fst (fillOf s i)"

definition animates :: "bar \<Rightarrow> int \<Rightarrow> bool" where
  "animates s i = (case fillOf s i of None \<Rightarrow> False | Some (p, t) \<Rightarrow> t \<noteq> TRANSITION_NONE)"

text \<open>The calls of \<^verbatim>\<open>render_\<close> made between two states, oldest first.\<close>

definition newRenders :: "bar \<Rightarrow> bar \<Rightarrow> bool list" where
  "newRenders s s' = drop (length (renderLog s)) (renderLog s')"

text \<open>The window invariant of the data model.\<close>

definition windowOk :: "bar \<Rightarrow> bool" where
  "windowOk s =
     (0 \<le> firstExpandedSegmentIndex s \<and>
      firstExpandedSegmentIndex s \<le> max 0 (segmentCount s - MAX_SEGMENTS))"

subsection \<open>Concrete stories\<close>

text \<open>Page ids \<^verbatim>\<open>"p"\<close>, \<^verbatim>\<open>"p+"\<close>, \<^verbatim>\<open>"p++"\<close>, ... and the progress bar of a story
  of \<open>n\<close> such pages, left to right, as \<^verbatim>\<open>build()\<close> leaves it when the first page is
  364 pixels wide.\<close>

definition pageId :: "nat \<Rightarrow> string" where
  "pageId n = CHR ''p'' # replicate n CHR ''+''"

definition pageIds :: "nat \<Rightarrow> string list" where
  "pageIds n = map pageId [0..<n]"

definition story :: "nat \<Rightarrow> bar" where
  "story n = build (pageIds n) 364 (constructor False)"

text \<open>A story of three pages whose first page has been played to its end.\<close>

definition afterFirstPage :: bar where
  "afterFirstPage = snd (updateProgress (pageId 0) 1 False (story 3))"

text \<open>A story of fifty pages, at page 45 when the store delivers a list that holds this
  page only.\<close>

definition onPage45 :: bar where
  "onPage45 = snd (updateProgress (pageId 45) (1 / 2) False (story 50))"

definition shrunk :: bar where
  "shrunk = snd (onPageIds [pageId 45] onPage45)"

text \<open>A story of three pages, on its first page when the store delivers a list that holds
  this page only.\<close>

definition relisted :: bar where
  "relisted = snd (onPageIds [pageId 0] afterFirstPage)"

text \<open>A run of progress updates, each given as (segment id, progress, update all): the
  states after each update, or the error of the first update that fails.\<close>

fun play :: "bar \<Rightarrow> (string \<times> real \<times> bool) list \<Rightarrow> error + bar list" where
  "play s [] = Inr []"
| "play s ((k, p, u) # us) =
     (case fst (updateProgress k p u s) of
        Inl e \<Rightarrow> Inl e
      | Inr _ \<Rightarrow>
          (case play (snd (updateProgress k p u s)) us of
             Inl e \<Rightarrow> Inl e
           | Inr ss \<Rightarrow> Inr (snd (updateProgress k p u s) # ss)))"

section \<open>Frame lemmas: what each operation leaves alone\<close>

lemmas constants =
  ELLIPSE_WIDTH_PX_def SEGMENTS_MARGIN_PX_def PROGRESS_BAR_PADDING_PX_def
  MAX_SEGMENTS_def SEGMENT_INCREMENT_def

lemma transform_frame: "\<exists>m. transform e x w s = s\<lparr>segmentStyle := m\<rparr>"
  by (auto simp: transform_def Let_def)

lemma render_for_frame: "\<exists>m. render_for w i t s = s\<lparr>segmentStyle := m\<rparr>"
proof (induction w i t s rule: render_for.induct)
  case (1 w i t s)
  show ?case
  proof (cases "i < segmentCount s")
    case False
    then have "render_for w i t s = s\<lparr>segmentStyle := segmentStyle s\<rparr>"
      by (simp add: render_for.simps)
    then show ?thesis by blast
  next
    case True
    show ?thesis
    proof (cases "js_index (segments s) i")
      case None
      with True have "render_for w i t s = s\<lparr>segmentStyle := segmentStyle s\<rparr>"
        by (simp add: render_for.simps)
      then show ?thesis by blast
    next
      case (Some seg)
      define wd where "wd = (if i \<ge> firstExpandedSegmentIndex s \<and>
                   i < firstExpandedSegmentIndex s + MAX_SEGMENTS
                then w else ELLIPSE_WIDTH_PX)"
      have step: "render_for w i t s =
          render_for w (i + 1) (t + wd + SEGMENTS_MARGIN_PX) (transform seg t wd s)"
        using True Some by (subst render_for.simps) (simp add: wd_def Let_def)
      have "\<exists>m. render_for w (i + 1) (t + wd + SEGMENTS_MARGIN_PX) (transform seg t wd s)
          = (transform seg t wd s)\<lparr>segmentStyle := m\<rparr>"
        using "1.IH"[OF True _ Some, of wd] by (simp add: wd_def)
      then obtain m where "render_for w (i + 1) (t + wd + SEGMENTS_MARGIN_PX) (transform seg t wd s)
          = (transform seg t wd s)\<lparr>segmentStyle := m\<rparr>" by blast
      moreover obtain m' where "transform seg t wd s = s\<lparr>segmentStyle := m'\<rparr>"
        using transform_frame by blast
      ultimately have "render_for w i t s = s\<lparr>segmentStyle := m\<rparr>"
        using step by simp
      then show ?thesis by blast
    qed
  qed
qed

lemma render_frame:
  "\<exists>m. render a s = s\<lparr>segmentStyle := m, animateClass := a, renderLog := renderLog s @ [a]\<rparr>"
proof -
  obtain m where "render_for (getSegmentWidth s) 0
      (- real_of_int (firstExpandedSegmentIndex s - getPrevEllipsisCount s) *
            (ELLIPSE_WIDTH_PX + SEGMENTS_MARGIN_PX)) s = s\<lparr>segmentStyle := m\<rparr>"
    using render_for_frame by blast
  then have "render a s = s\<lparr>segmentStyle := m, animateClass := a, renderLog := renderLog s @ [a]\<rparr>"
    by (simp add: render_def Let_def)
  then show ?thesis by blast
qed

lemma render_fields [simp]:
  "isBuilt (render a s) = isBuilt s"
  "segmentCount (render a s) = segmentCount s"
  "activeSegmentIndex (render a s) = activeSegmentIndex s"
  "activeSegmentProgress (render a s) = activeSegmentProgress s"
  "segmentIdMap (render a s) = segmentIdMap s"
  "activeSegmentId (render a s) = activeSegmentId s"
  "segments (render a s) = segments s"
  "firstExpandedSegmentIndex (render a s) = firstExpandedSegmentIndex s"
  "barWidthPx (render a s) = barWidthPx s"
  "rootChildren (render a s) = rootChildren s"
  "nextElement (render a s) = nextElement s"
  "valueStyle (render a s) = valueStyle s"
  "animateClass (render a s) = a"
  "dirRtl (render a s) = dirRtl s"
  "storeRtl (render a s) = storeRtl s"
  "renderLog (render a s) = renderLog s @ [a]"
  using render_frame [of a s] by auto

lemma updateProgressByIndex_frame:
  "\<exists>m. updateProgressByIndex i p t s = s\<lparr>valueStyle := m\<rparr>"
proof (cases "queryProgressValue s (i + 1)")
  case None
  then have "updateProgressByIndex i p t s = s\<lparr>valueStyle := valueStyle s\<rparr>"
    by (simp add: updateProgressByIndex_def)
  then show ?thesis by blast
next
  case (Some e)
  then show ?thesis
    by (auto simp: updateProgressByIndex_def Let_def)
qed

lemma updateProgressByIndex_fields [simp]:
  "isBuilt (updateProgressByIndex i p t s) = isBuilt s"
  "segmentCount (updateProgressByIndex i p t s) = segmentCount s"
  "activeSegmentIndex (updateProgressByIndex i p t s) = activeSegmentIndex s"
  "activeSegmentProgress (updateProgressByIndex i p t s) = activeSegmentProgress s"
  "segmentIdMap (updateProgressByIndex i p t s) = segmentIdMap s"
  "activeSegmentId (updateProgressByIndex i p t s) = activeSegmentId s"
  "segments (updateProgressByIndex i p t s) = segments s"
  "firstExpandedSegmentIndex (updateProgressByIndex i p t s) = firstExpandedSegmentIndex s"
  "barWidthPx (updateProgressByIndex i p t s) = barWidthPx s"
  "rootChildren (updateProgressByIndex i p t s) = rootChildren s"
  "nextElement (updateProgressByIndex i p t s) = nextElement s"
  "segmentStyle (updateProgressByIndex i p t s) = segmentStyle s"
  "animateClass (updateProgressByIndex i p t s) = animateClass s"
  "dirRtl (updateProgressByIndex i p t s) = dirRtl s"
  "storeRtl (updateProgressByIndex i p t s) = storeRtl s"
  "renderLog (updateProgressByIndex i p t s) = renderLog s"
  using updateProgressByIndex_frame [of i p t s] by auto

lemma updateSegments_for_frame:
  "\<exists>m. updateSegments_for a pv sh i s = s\<lparr>valueStyle := m\<rparr>"
proof (induction a pv sh i s rule: updateSegments_for.induct)
  case (1 a pv sh i s)
  show ?case
  proof (cases "i < segmentCount s")
    case False
    then have "updateSegments_for a pv sh i s = s\<lparr>valueStyle := valueStyle s\<rparr>"
      by (simp add: updateSegments_for.simps)
    then show ?thesis by blast
  next
    case True
    show ?thesis
    proof (cases "i = a")
      case True
      with \<open>i < segmentCount s\<close> "1.IH"(1) show ?thesis
        by (subst updateSegments_for.simps) simp
    next
      case False
      define p where "p = (if i < a then 1 else 0 :: real)"
      define t where "t = (if sh then i = pv else False)"
      have step: "updateSegments_for a pv sh i s =
          updateSegments_for a pv sh (i + 1) (updateProgressByIndex i p t s)"
        using True False by (subst updateSegments_for.simps) (simp add: p_def t_def Let_def)
      have "\<exists>m. updateSegments_for a pv sh (i + 1) (updateProgressByIndex i p t s)
          = (updateProgressByIndex i p t s)\<lparr>valueStyle := m\<rparr>"
        using "1.IH"(2)[OF True False, of p t] by (simp add: p_def t_def)
      then obtain m where "updateSegments_for a pv sh (i + 1) (updateProgressByIndex i p t s)
          = (updateProgressByIndex i p t s)\<lparr>valueStyle := m\<rparr>" by blast
      moreover obtain m' where "updateProgressByIndex i p t s = s\<lparr>valueStyle := m'\<rparr>"
        using updateProgressByIndex_frame by blast
      ultimately have "updateSegments_for a pv sh i s = s\<lparr>valueStyle := m\<rparr>"
        using step by simp
      then show ?thesis by blast
    qed
  qed
qed

lemma updateSegments_frame:
  "\<exists>m. updateSegments a p pv pp s = s\<lparr>valueStyle := m\<rparr>"
  unfolding updateSegments_def by (rule updateSegments_for_frame)

lemma updateSegments_fields [simp]:
  "isBuilt (updateSegments a p pv pp s) = isBuilt s"
  "segmentCount (updateSegments a p pv pp s) = segmentCount s"
  "activeSegmentIndex (updateSegments a p pv pp s) = activeSegmentIndex s"
  "activeSegmentProgress (updateSegments a p pv pp s) = activeSegmentProgress s"
  "segmentIdMap (updateSegments a p pv pp s) = segmentIdMap s"
  "activeSegmentId (updateSegments a p pv pp s) = activeSegmentId s"
  "segments (updateSegments a p pv pp s) = segments s"
  "firstExpandedSegmentIndex (updateSegments a p pv pp s) = firstExpandedSegmentIndex s"
  "barWidthPx (updateSegments a p pv pp s) = barWidthPx s"
  "rootChildren (updateSegments a p pv pp s) = rootChildren s"
  "nextElement (updateSegments a p pv pp s) = nextElement s"
  "segmentStyle (updateSegments a p pv pp s) = segmentStyle s"
  "animateClass (updateSegments a p pv pp s) = animateClass s"
  "dirRtl (updateSegments a p pv pp s) = dirRtl s"
  "storeRtl (updateSegments a p pv pp s) = storeRtl s"
  "renderLog (updateSegments a p pv pp s) = renderLog s"
  using updateSegments_frame [of a p pv pp s] by auto

lemma getInitial_fields [simp]:
  "isBuilt (getInitialFirstExpandedSegmentIndex i s) = isBuilt s"
  "segmentCount (getInitialFirstExpandedSegmentIndex i s) = segmentCount s"
  "activeSegmentIndex (getInitialFirstExpandedSegmentIndex i s) = activeSegmentIndex s"
  "activeSegmentProgress (getInitialFirstExpandedSegmentIndex i s) = activeSegmentProgress s"
  "segmentIdMap (getInitialFirstExpandedSegmentIndex i s) = segmentIdMap s"
  "activeSegmentId (getInitialFirstExpandedSegmentIndex i s) = activeSegmentId s"
  "segments (getInitialFirstExpandedSegmentIndex i s) = segments s"
  "barWidthPx (getInitialFirstExpandedSegmentIndex i s) = barWidthPx s"
  "rootChildren (getInitialFirstExpandedSegmentIndex i s) = rootChildren s"
  "nextElement (getInitialFirstExpandedSegmentIndex i s) = nextElement s"
  "segmentStyle (getInitialFirstExpandedSegmentIndex i s) = segmentStyle s"
  "valueStyle (getInitialFirstExpandedSegmentIndex i s) = valueStyle s"
  "animateClass (getInitialFirstExpandedSegmentIndex i s) = animateClass s"
  "dirRtl (getInitialFirstExpandedSegmentIndex i s) = dirRtl s"
  "storeRtl (getInitialFirstExpandedSegmentIndex i s) = storeRtl s"
  "renderLog (getInitialFirstExpandedSegmentIndex i s) = renderLog s"
  by (simp_all add: getInitialFirstExpandedSegmentIndex_def)

lemma checkIndexForOverflow_fields [simp]:
  "isBuilt (checkIndexForOverflow s) = isBuilt s"
  "segmentCount (checkIndexForOverflow s) = segmentCount s"
  "activeSegmentIndex (checkIndexForOverflow s) = activeSegmentIndex s"
  "activeSegmentProgress (checkIndexForOverflow s) = activeSegmentProgress s"
  "segmentIdMap (checkIndexForOverflow s) = segmentIdMap s"
  "activeSegmentId (checkIndexForOverflow s) = activeSegmentId s"
  "segments (checkIndexForOverflow s) = segments s"
  "barWidthPx (checkIndexForOverflow s) = barWidthPx s"
  "rootChildren (checkIndexForOverflow s) = rootChildren s"
  "nextElement (checkIndexForOverflow s) = nextElement s"
  "valueStyle (checkIndexForOverflow s) = valueStyle s"
  "dirRtl (checkIndexForOverflow s) = dirRtl s"
  "storeRtl (checkIndexForOverflow s) = storeRtl s"
  by (simp_all add: checkIndexForOverflow_def Let_def)

section \<open>The outcome of a progress update\<close>

lemma updateProgress_None:
  "segmentIdMap s k = None \<Longrightarrow> updateProgress k p u s = (Inl InvalidSegmentId, s)"
  by (simp add: updateProgress_def assertVaildSegmentId_def hasOwn_def)

text \<open>The state after the first three steps of a successful update, before the active
  state is stored and the overflow is checked.\<close>

lemma updateProgress_Some:
  "segmentIdMap s k = Some i \<Longrightarrow>
   updateProgress k p u s =
     (Inr (),
      checkIndexForOverflow
        ((let s1 = updateProgressByIndex i p True s;
              s2 = (if activeSegmentIndex s = 0 then
                      render False (getInitialFirstExpandedSegmentIndex i s1)
                    else s1)
          in if activeSegmentIndex s \<noteq> i \<or> u then
               updateSegments i p (activeSegmentIndex s) (activeSegmentProgress s) s2
             else s2)
         \<lparr>activeSegmentProgress := p, activeSegmentIndex := i, activeSegmentId := k\<rparr>))"
  by (simp add: updateProgress_def assertVaildSegmentId_def hasOwn_def Let_def)

lemma updateProgress_fields [simp]:
  "isBuilt (snd (updateProgress k p u s)) = isBuilt s"
  "segmentCount (snd (updateProgress k p u s)) = segmentCount s"
  "segmentIdMap (snd (updateProgress k p u s)) = segmentIdMap s"
  "segments (snd (updateProgress k p u s)) = segments s"
  "barWidthPx (snd (updateProgress k p u s)) = barWidthPx s"
  "rootChildren (snd (updateProgress k p u s)) = rootChildren s"
  "nextElement (snd (updateProgress k p u s)) = nextElement s"
  "dirRtl (snd (updateProgress k p u s)) = dirRtl s"
  "storeRtl (snd (updateProgress k p u s)) = storeRtl s"
  by (cases "segmentIdMap s k"; simp add: updateProgress_None updateProgress_Some Let_def)+

section \<open>The registry\<close>

lemma registryOk_cong:
  "segmentCount t = segmentCount s \<Longrightarrow> rootChildren t = rootChildren s \<Longrightarrow>
   nextElement t = nextElement s \<Longrightarrow> segmentIdMap t = segmentIdMap s \<Longrightarrow>
   registryOk t = registryOk s"
  by (simp add: registryOk_def)

lemma registryOk_constructor: "registryOk (constructor rtl)"
  by (simp add: registryOk_def constructor_def)

lemma registryOk_clear: "registryOk (clear s)"
  by (simp add: registryOk_def clear_def)

lemma addSegment_fields [simp]:
  "segmentCount (addSegment k s) = segmentCount s + 1"
  "segmentIdMap (addSegment k s) = (segmentIdMap s)(k \<mapsto> segmentCount s)"
  "rootChildren (addSegment k s) = rootChildren s @ [nextElement s]"
  "segments (addSegment k s) = segments s @ [nextElement s]"
  "nextElement (addSegment k s) = Suc (nextElement s)"
  "isBuilt (addSegment k s) = isBuilt s"
  "activeSegmentIndex (addSegment k s) = activeSegmentIndex s"
  "activeSegmentProgress (addSegment k s) = activeSegmentProgress s"
  "activeSegmentId (addSegment k s) = activeSegmentId s"
  "firstExpandedSegmentIndex (addSegment k s) = firstExpandedSegmentIndex s"
  "barWidthPx (addSegment k s) = barWidthPx s"
  "segmentStyle (addSegment k s) = segmentStyle s"
  "valueStyle (addSegment k s) = valueStyle s"
  "animateClass (addSegment k s) = animateClass s"
  "dirRtl (addSegment k s) = dirRtl s"
  "storeRtl (addSegment k s) = storeRtl s"
  "renderLog (addSegment k s) = renderLog s"
  by (simp_all add: addSegment_def buildSegmentEl_def Let_def)

lemma registryOk_addSegment:
  assumes ok: "registryOk s" and new: "segmentIdMap s k = None"
  shows "registryOk (addSegment k s)"
proof -
  from ok have c: "0 \<le> segmentCount s" "int (length (rootChildren s)) = segmentCount s"
    "distinct (rootChildren s)" "\<forall>e \<in> set (rootChildren s). e < nextElement s"
    and r: "\<And>k i. segmentIdMap s k = Some i \<Longrightarrow> 0 \<le> i \<and> i < segmentCount s"
    and inj: "\<And>k k' i. segmentIdMap s k = Some i \<Longrightarrow> segmentIdMap s k' = Some i \<Longrightarrow> k = k'"
    and sur: "\<And>i. 0 \<le> i \<Longrightarrow> i < segmentCount s \<Longrightarrow> \<exists>k. segmentIdMap s k = Some i"
    by (auto simp: registryOk_def)
  have 1: "0 \<le> segmentCount (addSegment k s)" using c by simp
  have 2: "int (length (rootChildren (addSegment k s))) = segmentCount (addSegment k s)"
    using c by simp
  have 3: "distinct (rootChildren (addSegment k s))" using c by auto
  have 4: "\<forall>e \<in> set (rootChildren (addSegment k s)). e < nextElement (addSegment k s)"
    using c by (auto simp: less_Suc_eq)
  have 5: "\<forall>k' i. segmentIdMap (addSegment k s) k' = Some i \<longrightarrow>
      0 \<le> i \<and> i < segmentCount (addSegment k s)"
    using c r by (fastforce split: if_splits)
  have 6: "\<forall>k1 k2 i. segmentIdMap (addSegment k s) k1 = Some i \<longrightarrow>
      segmentIdMap (addSegment k s) k2 = Some i \<longrightarrow> k1 = k2"
  proof (intro allI impI)
    fix k1 k2 i
    assume a: "segmentIdMap (addSegment k s) k1 = Some i"
      and b: "segmentIdMap (addSegment k s) k2 = Some i"
    show "k1 = k2"
    proof (cases "k1 = k")
      case True
      then have i: "i = segmentCount s" using a by simp
      show ?thesis
      proof (cases "k2 = k")
        case True with \<open>k1 = k\<close> show ?thesis by simp
      next
        case False
        then have "segmentIdMap s k2 = Some (segmentCount s)" using b i by simp
        then show ?thesis using r by fastforce
      qed
    next
      case False
      then have a': "segmentIdMap s k1 = Some i" using a by simp
      show ?thesis
      proof (cases "k2 = k")
        case True
        then have "i = segmentCount s" using b by simp
        then show ?thesis using r a' by fastforce
      next
        case False
        then have "segmentIdMap s k2 = Some i" using b by simp
        then show ?thesis using inj a' by blast
      qed
    qed
  qed
  have 7: "\<forall>i. 0 \<le> i \<and> i < segmentCount (addSegment k s) \<longrightarrow>
      (\<exists>k'. segmentIdMap (addSegment k s) k' = Some i)"
  proof (intro allI impI)
    fix i assume i: "0 \<le> i \<and> i < segmentCount (addSegment k s)"
    show "\<exists>k'. segmentIdMap (addSegment k s) k' = Some i"
    proof (cases "i = segmentCount s")
      case True
      then have "segmentIdMap (addSegment k s) k = Some i" by simp
      then show ?thesis by blast
    next
      case False
      with i have "0 \<le> i" "i < segmentCount s" by simp_all
      then obtain k' where k': "segmentIdMap s k' = Some i" using sur by blast
      with new have "k' \<noteq> k" by auto
      with k' have "segmentIdMap (addSegment k s) k' = Some i" by simp
      then show ?thesis by blast
    qed
  qed
  show ?thesis
    unfolding registryOk_def using 1 2 3 4 5 6 7 by blast
qed

lemma registryOk_addPageId: "registryOk s \<Longrightarrow> registryOk (addPageId k s)"
  by (simp add: addPageId_def registryOk_addSegment)

lemma registryOk_fold_addPageId: "registryOk s \<Longrightarrow> registryOk (fold addPageId ks s)"
  by (induction ks arbitrary: s) (simp_all add: registryOk_addPageId)

lemma registryOk_updateProgress [simp]:
  "registryOk (snd (updateProgress k p u s)) = registryOk s"
  by (rule registryOk_cong) simp_all

lemma registryOk_render [simp]: "registryOk (render a s) = registryOk s"
  by (rule registryOk_cong) simp_all

lemma registryOk_onPageIds:
  assumes "registryOk s" shows "registryOk (snd (onPageIds ks s))"
proof -
  have "registryOk (if isBuilt s then clear s else s)"
    using assms by (simp add: registryOk_clear)
  then have "registryOk (fold addPageId ks (if isBuilt s then clear s else s))"
    by (rule registryOk_fold_addPageId)
  then show ?thesis
    by (simp add: onPageIds_def Let_def)
qed

lemma registryOk_build:
  assumes "registryOk s" shows "registryOk (build ks w s)"
proof (cases "isBuilt s")
  case True
  then show ?thesis using assms by (simp add: build_def)
next
  case False
  have "registryOk (snd (onPageIds ks s))" using assms by (rule registryOk_onPageIds)
  then show ?thesis
    using False by (simp add: build_def Let_def onRtlStateUpdate_def registryOk_def)
qed

lemma reachable_registryOk: "reachable s \<Longrightarrow> registryOk s"
proof (induction rule: reachable.induct)
  case (reach_constructor rtl)
  show ?case by (rule registryOk_constructor)
next
  case (reach_build s pageIds pageWidth)
  then show ?case by (simp add: registryOk_build)
next
  case (reach_onPageIds s pageIds)
  then show ?case by (simp add: registryOk_onPageIds)
next
  case (reach_updateProgress s segmentId progress updateAllSegments)
  then show ?case by simp
next
  case (reach_replay s)
  then show ?case by (simp add: replay_def registryOk_def)
next
  case (reach_onResize s pageWidth)
  then show ?case by (simp add: onResize_def registryOk_def)
next
  case (reach_rtlStateChange s rtlState)
  then show ?case by (simp add: rtlStateChange_def onRtlStateUpdate_def registryOk_def)
qed

section \<open>Registering page ids\<close>

lemma addPageId_other_fields [simp]:
  "isBuilt (addPageId k s) = isBuilt s"
  "activeSegmentIndex (addPageId k s) = activeSegmentIndex s"
  "activeSegmentProgress (addPageId k s) = activeSegmentProgress s"
  "activeSegmentId (addPageId k s) = activeSegmentId s"
  "firstExpandedSegmentIndex (addPageId k s) = firstExpandedSegmentIndex s"
  "barWidthPx (addPageId k s) = barWidthPx s"
  "segmentStyle (addPageId k s) = segmentStyle s"
  "valueStyle (addPageId k s) = valueStyle s"
  "animateClass (addPageId k s) = animateClass s"
  "dirRtl (addPageId k s) = dirRtl s"
  "storeRtl (addPageId k s) = storeRtl s"
  "renderLog (addPageId k s) = renderLog s"
  by (simp_all add: addPageId_def)

lemma fold_addPageId_other_fields [simp]:
  "isBuilt (fold addPageId ks s) = isBuilt s"
  "activeSegmentIndex (fold addPageId ks s) = activeSegmentIndex s"
  "activeSegmentProgress (fold addPageId ks s) = activeSegmentProgress s"
  "activeSegmentId (fold addPageId ks s) = activeSegmentId s"
  "firstExpandedSegmentIndex (fold addPageId ks s) = firstExpandedSegmentIndex s"
  "barWidthPx (fold addPageId ks s) = barWidthPx s"
  "segmentStyle (fold addPageId ks s) = segmentStyle s"
  "valueStyle (fold addPageId ks s) = valueStyle s"
  "animateClass (fold addPageId ks s) = animateClass s"
  "dirRtl (fold addPageId ks s) = dirRtl s"
  "storeRtl (fold addPageId ks s) = storeRtl s"
  "renderLog (fold addPageId ks s) = renderLog s"
  by (induction ks arbitrary: s; simp)+

text \<open>Fresh, pairwise different ids are registered at consecutive positions.\<close>

lemma fold_addPageId_fresh:
  assumes "distinct ks" and "\<forall>k \<in> set ks. segmentIdMap s k = None"
  shows "segmentCount (fold addPageId ks s) = segmentCount s + int (length ks)"
    and "\<forall>i < length ks. segmentIdMap (fold addPageId ks s) (ks ! i) = Some (segmentCount s + int i)"
    and "\<forall>k. k \<notin> set ks \<longrightarrow> segmentIdMap (fold addPageId ks s) k = segmentIdMap s k"
    and "rootChildren (fold addPageId ks s) =
           rootChildren s @ [nextElement s ..< nextElement s + length ks]"
    and "segments (fold addPageId ks s) =
           segments s @ [nextElement s ..< nextElement s + length ks]"
    and "nextElement (fold addPageId ks s) = nextElement s + length ks"
  using assms
proof (induction ks arbitrary: s)
  case Nil
  {
    case 1 show ?case by simp
  next
    case 2 show ?case by simp
  next
    case 3 show ?case by simp
  next
    case 4 show ?case by simp
  next
    case 5 show ?case by simp
  next
    case 6 show ?case by simp
  }
next
  case (Cons k ks)
  {
    case 1
    then have n: "segmentIdMap s k = None" by simp
    then have step: "addPageId k s = addSegment k s" by (simp add: addPageId_def)
    from 1 have d: "distinct ks" and f: "\<forall>k' \<in> set ks. segmentIdMap (addPageId k s) k' = None"
      by (auto simp: step)
    show ?case using Cons.IH(1)[OF d f] by (simp add: step)
  next
    case 2
    then have n: "segmentIdMap s k = None" and nk: "k \<notin> set ks" by simp_all
    then have step: "addPageId k s = addSegment k s" by (simp add: addPageId_def)
    from 2 have d: "distinct ks" and f: "\<forall>k' \<in> set ks. segmentIdMap (addPageId k s) k' = None"
      by (auto simp: step)
    show ?case
    proof (intro allI impI)
      fix i assume i: "i < length (k # ks)"
      show "segmentIdMap (fold addPageId (k # ks) s) ((k # ks) ! i) = Some (segmentCount s + int i)"
      proof (cases i)
        case 0
        then show ?thesis using Cons.IH(3)[OF d f] nk by (simp add: step)
      next
        case (Suc j)
        then have "j < length ks" using i by simp
        then show ?thesis using Cons.IH(2)[OF d f] Suc by (simp add: step)
      qed
    qed
  next
    case 3
    then have n: "segmentIdMap s k = None" by simp
    then have step: "addPageId k s = addSegment k s" by (simp add: addPageId_def)
    from 3 have d: "distinct ks" and f: "\<forall>k' \<in> set ks. segmentIdMap (addPageId k s) k' = None"
      by (auto simp: step)
    show ?case using Cons.IH(3)[OF d f] by (auto simp: step)
  next
    case 4
    then have n: "segmentIdMap s k = None" by simp
    then have step: "addPageId k s = addSegment k s" by (simp add: addPageId_def)
    from 4 have d: "distinct ks" and f: "\<forall>k' \<in> set ks. segmentIdMap (addPageId k s) k' = None"
      by (auto simp: step)
    have u: "[nextElement s ..< Suc (nextElement s + length ks)] =
        nextElement s # [Suc (nextElement s) ..< Suc (nextElement s + length ks)]"
      by (simp add: upt_conv_Cons del: upt_Suc)
    show ?case using Cons.IH(4)[OF d f] by (simp add: step u del: upt_Suc)
  next
    case 5
    then have n: "segmentIdMap s k = None" by simp
    then have step: "addPageId k s = addSegment k s" by (simp add: addPageId_def)
    from 5 have d: "distinct ks" and f: "\<forall>k' \<in> set ks. segmentIdMap (addPageId k s) k' = None"
      by (auto simp: step)
    have u: "[nextElement s ..< Suc (nextElement s + length ks)] =
        nextElement s # [Suc (nextElement s) ..< Suc (nextElement s + length ks)]"
      by (simp add: upt_conv_Cons del: upt_Suc)
    show ?case using Cons.IH(5)[OF d f] by (simp add: step u del: upt_Suc)
  next
    case 6
    then have n: "segmentIdMap s k = None" by simp
    then have step: "addPageId k s = addSegment k s" by (simp add: addPageId_def)
    from 6 have d: "distinct ks" and f: "\<forall>k' \<in> set ks. segmentIdMap (addPageId k s) k' = None"
      by (auto simp: step)
    show ?case using Cons.IH(6)[OF d f] by (simp add: step)
  }
qed

lemma pageId_inj [simp]: "pageId i = pageId j \<longleftrightarrow> i = j"
proof
  assume "pageId i = pageId j"
  then have "length (pageId i) = length (pageId j)" by simp
  then show "i = j" by (simp add: pageId_def)
qed simp

lemma distinct_pageIds: "distinct (pageIds n)"
  by (simp add: pageIds_def distinct_map inj_on_def)

lemma length_pageIds [simp]: "length (pageIds n) = n"
  by (simp add: pageIds_def)

lemma nth_pageIds [simp]: "i < n \<Longrightarrow> pageIds n ! i = pageId i"
  by (simp add: pageIds_def)

lemma set_pageIds: "set (pageIds n) = pageId ` {0..<n}"
  by (simp add: pageIds_def)

section \<open>The bar of a story of \<open>n\<close> pages\<close>

lemma story_unfold:
  "story n = (fold addPageId (pageIds n) (constructor False))
               \<lparr>dirRtl := False, barWidthPx := 360, isBuilt := True\<rparr>"
  by (simp add: story_def build_def onPageIds_def Let_def onRtlStateUpdate_def
      PROGRESS_BAR_PADDING_PX_def constructor_def)

lemma story_registry:
  "segmentCount (story n) = int n"
  "i < n \<Longrightarrow> segmentIdMap (story n) (pageId i) = Some (int i)"
  "k \<notin> set (pageIds n) \<Longrightarrow> segmentIdMap (story n) k = None"
  "rootChildren (story n) = [0..<n]"
  "segments (story n) = [0..<n]"
  "nextElement (story n) = n"
proof -
  let ?c = "constructor False"
  have fresh: "\<forall>k \<in> set (pageIds n). segmentIdMap ?c k = None"
    by (simp add: constructor_def)
  note f = fold_addPageId_fresh [OF distinct_pageIds fresh]
  show "segmentCount (story n) = int n"
    using f(1) by (simp add: story_unfold) (simp add: constructor_def)
  show "segmentIdMap (story n) (pageId i) = Some (int i)" if "i < n"
    using f(2) that by (simp add: story_unfold) (simp add: constructor_def)
  show "segmentIdMap (story n) k = None" if "k \<notin> set (pageIds n)"
    using f(3) that by (simp add: story_unfold) (simp add: constructor_def)
  show "rootChildren (story n) = [0..<n]"
    using f(4) by (simp add: story_unfold) (simp add: constructor_def)
  show "segments (story n) = [0..<n]"
    using f(5) by (simp add: story_unfold) (simp add: constructor_def)
  show "nextElement (story n) = n"
    using f(6) by (simp add: story_unfold) (simp add: constructor_def)
qed

lemma story_fields [simp]:
  "isBuilt (story n)"
  "activeSegmentIndex (story n) = 0"
  "activeSegmentProgress (story n) = 1"
  "activeSegmentId (story n) = []"
  "firstExpandedSegmentIndex (story n) = 0"
  "barWidthPx (story n) = 360"
  "segmentStyle (story n) = Map.empty"
  "valueStyle (story n) = Map.empty"
  "\<not> animateClass (story n)"
  "\<not> dirRtl (story n)"
  "\<not> storeRtl (story n)"
  "renderLog (story n) = []"
  by (simp_all add: story_unfold) (simp_all add: constructor_def)

lemma story_unregistered: "segmentIdMap (story n) [] = None"
  by (rule story_registry(3)) (auto simp: set_pageIds pageId_def)

lemma reachable_story: "reachable (story n)"
  unfolding story_def by (intro reach_build reach_constructor)

section \<open>Unknown segments\<close>

text \<open>
  C8. \<^verbatim>\<open>updateProgress(id, progress)\<close> fails with the invalid-segment error exactly when
  \<open>id\<close> is not registered, which is the case for every id once the registry has been
  cleared; the state the failed call leaves is the state it was called in, so no fill, no
  active state and no window state has changed. An id that has just been added is accepted.
\<close>

theorem updateProgress_unknown_segment:
  "(fst (updateProgress segId p u s) = Inl InvalidSegmentId \<longleftrightarrow> segmentIdMap s segId = None) \<and>
   (fst (updateProgress segId p u s) = Inr () \<longleftrightarrow> segmentIdMap s segId \<noteq> None) \<and>
   (segmentIdMap s segId = None \<longrightarrow> snd (updateProgress segId p u s) = s) \<and>
   updateProgress segId p u (clear s) = (Inl InvalidSegmentId, clear s) \<and>
   fst (updateProgress segId p u (addSegment segId s)) = Inr ()"
proof -
  have a: "fst (updateProgress segId p u s) = Inl InvalidSegmentId \<longleftrightarrow> segmentIdMap s segId = None"
    by (cases "segmentIdMap s segId") (simp_all add: updateProgress_None updateProgress_Some)
  have b: "fst (updateProgress segId p u s) = Inr () \<longleftrightarrow> segmentIdMap s segId \<noteq> None"
    by (cases "segmentIdMap s segId") (simp_all add: updateProgress_None updateProgress_Some)
  have c: "segmentIdMap s segId = None \<longrightarrow> snd (updateProgress segId p u s) = s"
    by (simp add: updateProgress_None)
  have "segmentIdMap (clear s) segId = None"
    by (simp add: clear_def)
  then have d: "updateProgress segId p u (clear s) = (Inl InvalidSegmentId, clear s)"
    by (rule updateProgress_None)
  have "segmentIdMap (addSegment segId s) segId = Some (segmentCount s)"
    by simp
  then have e: "fst (updateProgress segId p u (addSegment segId s)) = Inr ()"
    by (simp add: updateProgress_Some)
  from a b c d e show ?thesis by blast
qed

theorem updateProgress_unknown_segment_witness:
  "segmentIdMap (story 3) [] = None \<and>
   updateProgress [] (1 / 2) False (story 3) = (Inl InvalidSegmentId, story 3)"
proof -
  have n: "segmentIdMap (story 3) [] = None" by (rule story_unregistered)
  from updateProgress_unknown_segment [of "[]" "1 / 2" False "story 3"] n
  have "fst (updateProgress [] (1 / 2) False (story 3)) = Inl InvalidSegmentId"
    and "snd (updateProgress [] (1 / 2) False (story 3)) = story 3"
    by simp_all
  then have "updateProgress [] (1 / 2) False (story 3) = (Inl InvalidSegmentId, story 3)"
    by (simp add: prod_eq_iff)
  with n show ?thesis by simp
qed

section \<open>What a progress update writes on the progress values\<close>

lemma updateProgressByIndex_value:
  "0 \<le> i \<Longrightarrow> i < int (length (rootChildren s)) \<Longrightarrow>
   valueStyle (updateProgressByIndex i p t s) =
     (valueStyle s)(rootChildren s ! nat i \<mapsto>
        (p, if t then (if p = 1 \<or> p = 0 then TRANSITION_EASE else TRANSITION_LINEAR)
            else TRANSITION_NONE))"
  by (simp add: updateProgressByIndex_def queryProgressValue_def js_index_def Let_def)

lemma updateProgressByIndex_value_outside:
  "e \<notin> set (rootChildren s) \<Longrightarrow> valueStyle (updateProgressByIndex i p t s) e = valueStyle s e"
  by (auto simp: updateProgressByIndex_def queryProgressValue_def js_index_def Let_def
      split: option.splits if_splits)

lemma updateSegments_for_fields [simp]:
  "segmentCount (updateSegments_for a pv sh i s) = segmentCount s"
  "rootChildren (updateSegments_for a pv sh i s) = rootChildren s"
  using updateSegments_for_frame [of a pv sh i s] by auto

lemma updateSegments_for_value:
  assumes "distinct (rootChildren s)" and "int (length (rootChildren s)) = segmentCount s"
    and "0 \<le> i" and "0 \<le> j" and "j < segmentCount s"
  shows "valueStyle (updateSegments_for a pv sh i s) (rootChildren s ! nat j) =
     (if i \<le> j \<and> j \<noteq> a
      then Some (if j < a then 1 else 0,
                 if sh \<and> j = pv then TRANSITION_EASE else TRANSITION_NONE)
      else valueStyle s (rootChildren s ! nat j))"
  using assms
proof (induction a pv sh i s rule: updateSegments_for.induct)
  case (1 a pv sh i s)
  show ?case
  proof (cases "i < segmentCount s")
    case False
    then have "updateSegments_for a pv sh i s = s"
      by (simp add: updateSegments_for.simps)
    with False "1.prems" show ?thesis by simp
  next
    case True
    show ?thesis
    proof (cases "i = a")
      case True
      have step: "updateSegments_for a pv sh i s = updateSegments_for a pv sh (i + 1) s"
        using True \<open>i < segmentCount s\<close> by (subst updateSegments_for.simps) simp
      have "valueStyle (updateSegments_for a pv sh (i + 1) s) (rootChildren s ! nat j) =
          (if i + 1 \<le> j \<and> j \<noteq> a
           then Some (if j < a then 1 else 0,
                      if sh \<and> j = pv then TRANSITION_EASE else TRANSITION_NONE)
           else valueStyle s (rootChildren s ! nat j))"
        using "1.IH"(1)[OF \<open>i < segmentCount s\<close> True] "1.prems" by simp
      then show ?thesis using step True by auto
    next
      case False
      define p where "p = (if i < a then 1 else 0 :: real)"
      define t where "t = (if sh then i = pv else False)"
      define s' where "s' = updateProgressByIndex i p t s"
      have step: "updateSegments_for a pv sh i s = updateSegments_for a pv sh (i + 1) s'"
        using True False
        by (subst updateSegments_for.simps) (simp add: p_def t_def s'_def Let_def)
      have ih: "valueStyle (updateSegments_for a pv sh (i + 1) s') (rootChildren s' ! nat j) =
          (if i + 1 \<le> j \<and> j \<noteq> a
           then Some (if j < a then 1 else 0,
                      if sh \<and> j = pv then TRANSITION_EASE else TRANSITION_NONE)
           else valueStyle s' (rootChildren s' ! nat j))"
        using "1.IH"(2)[OF True False, of p t] "1.prems"
        by (simp add: p_def t_def s'_def)
      have rc: "rootChildren s' = rootChildren s" by (simp add: s'_def)
      have w: "valueStyle s' =
          (valueStyle s)(rootChildren s ! nat i \<mapsto>
            (p, if t then TRANSITION_EASE else TRANSITION_NONE))"
        unfolding s'_def using True "1.prems"
        by (subst updateProgressByIndex_value) (auto simp: p_def)
      have eq: "rootChildren s ! nat j = rootChildren s ! nat i \<longleftrightarrow> j = i"
        using "1.prems" True by (subst nth_eq_iff_index_eq) auto
      show ?thesis
        unfolding step using ih False True "1.prems"
        by (auto simp: rc w eq p_def t_def)
    qed
  qed
qed

lemma updateSegments_for_value_outside:
  "e \<notin> set (rootChildren s) \<Longrightarrow>
   valueStyle (updateSegments_for a pv sh i s) e = valueStyle s e"
proof (induction a pv sh i s rule: updateSegments_for.induct)
  case (1 a pv sh i s)
  show ?case
  proof (cases "i < segmentCount s")
    case False
    then show ?thesis by (simp add: updateSegments_for.simps)
  next
    case True
    show ?thesis
    proof (cases "i = a")
      case True
      then show ?thesis
        using "1.IH"(1)[OF \<open>i < segmentCount s\<close> True] "1.prems" \<open>i < segmentCount s\<close>
        by (subst updateSegments_for.simps) simp
    next
      case False
      define p where "p = (if i < a then 1 else 0 :: real)"
      define t where "t = (if sh then i = pv else False)"
      have step: "updateSegments_for a pv sh i s =
          updateSegments_for a pv sh (i + 1) (updateProgressByIndex i p t s)"
        using True False
        by (subst updateSegments_for.simps) (simp add: p_def t_def Let_def)
      have "valueStyle (updateSegments_for a pv sh (i + 1) (updateProgressByIndex i p t s)) e =
          valueStyle (updateProgressByIndex i p t s) e"
        using "1.IH"(2)[OF True False, of p t] "1.prems" by (simp add: p_def t_def)
      then show ?thesis
        using step "1.prems" by (simp add: updateProgressByIndex_value_outside)
    qed
  qed
qed

section \<open>The progress values after an update\<close>

lemma fillOf_inside:
  "0 \<le> j \<Longrightarrow> j < int (length (rootChildren s)) \<Longrightarrow>
   fillOf s j = valueStyle s (rootChildren s ! nat j)"
  by (simp add: fillOf_def js_index_def)

lemma fillOf_outside:
  "\<not> (0 \<le> j \<and> j < int (length (rootChildren s))) \<Longrightarrow> fillOf s j = None"
  by (auto simp: fillOf_def js_index_def)

text \<open>The progress values after a successful update, position by position.\<close>

lemma updateProgress_fillOf:
  assumes ok: "registryOk s" and k: "segmentIdMap s k = Some i"
    and j: "0 \<le> j" "j < segmentCount s"
  shows "fillOf (snd (updateProgress k p u s)) j =
     (if j = i then
        Some (p, if p = 1 \<or> p = 0 then TRANSITION_EASE else TRANSITION_LINEAR)
      else if activeSegmentIndex s \<noteq> i \<or> u then
        Some (if j < i then 1 else 0,
              if shouldAnimatePreviousSegment i p (activeSegmentIndex s) (activeSegmentProgress s)
                 \<and> j = activeSegmentIndex s
              then TRANSITION_EASE else TRANSITION_NONE)
      else fillOf s j)"
proof -
  from ok have d: "distinct (rootChildren s)"
    and l: "int (length (rootChildren s)) = segmentCount s"
    by (simp_all add: registryOk_def)
  from ok k have i: "0 \<le> i" "i < segmentCount s"
    by (auto simp: registryOk_def)
  define s1 where "s1 = updateProgressByIndex i p True s"
  define s2 where "s2 = (if activeSegmentIndex s = 0 then
      render False (getInitialFirstExpandedSegmentIndex i s1) else s1)"
  define s3 where "s3 = (if activeSegmentIndex s \<noteq> i \<or> u then
      updateSegments i p (activeSegmentIndex s) (activeSegmentProgress s) s2 else s2)"
  have fin: "snd (updateProgress k p u s) =
      checkIndexForOverflow
        (s3\<lparr>activeSegmentProgress := p, activeSegmentIndex := i, activeSegmentId := k\<rparr>)"
    using k by (simp add: updateProgress_Some s1_def s2_def s3_def Let_def)
  have v1: "valueStyle s1 = (valueStyle s)(rootChildren s ! nat i \<mapsto>
      (p, if p = 1 \<or> p = 0 then TRANSITION_EASE else TRANSITION_LINEAR))"
    unfolding s1_def using i l by (subst updateProgressByIndex_value) auto
  have c2: "rootChildren s2 = rootChildren s" "segmentCount s2 = segmentCount s"
    "valueStyle s2 = valueStyle s1"
    by (simp_all add: s2_def s1_def)
  have eq: "rootChildren s ! nat j = rootChildren s ! nat i \<longleftrightarrow> j = i"
    using d l i j by (subst nth_eq_iff_index_eq) auto
  have v2: "valueStyle s2 (rootChildren s ! nat j) =
      (if j = i then Some (p, if p = 1 \<or> p = 0 then TRANSITION_EASE else TRANSITION_LINEAR)
       else valueStyle s (rootChildren s ! nat j))"
    by (simp add: c2 v1 eq)
  have v3: "valueStyle s3 (rootChildren s ! nat j) =
      (if j = i then Some (p, if p = 1 \<or> p = 0 then TRANSITION_EASE else TRANSITION_LINEAR)
       else if activeSegmentIndex s \<noteq> i \<or> u then
         Some (if j < i then 1 else 0,
               if shouldAnimatePreviousSegment i p (activeSegmentIndex s) (activeSegmentProgress s)
                  \<and> j = activeSegmentIndex s
               then TRANSITION_EASE else TRANSITION_NONE)
       else valueStyle s (rootChildren s ! nat j))"
  proof (cases "activeSegmentIndex s \<noteq> i \<or> u")
    case False
    then show ?thesis using v2 by (simp add: s3_def)
  next
    case True
    have "valueStyle (updateSegments_for i (activeSegmentIndex s)
        (shouldAnimatePreviousSegment i p (activeSegmentIndex s) (activeSegmentProgress s)) 0 s2)
        (rootChildren s2 ! nat j) =
      (if 0 \<le> j \<and> j \<noteq> i
       then Some (if j < i then 1 else 0,
              if shouldAnimatePreviousSegment i p (activeSegmentIndex s) (activeSegmentProgress s)
                 \<and> j = activeSegmentIndex s
              then TRANSITION_EASE else TRANSITION_NONE)
       else valueStyle s2 (rootChildren s2 ! nat j))"
      by (rule updateSegments_for_value) (use d l j c2 in simp_all)
    then show ?thesis
      using True j v2 by (auto simp: s3_def updateSegments_def c2(1,2))
  qed
  have c3: "rootChildren s3 = rootChildren s"
    by (simp add: s3_def c2)
  have "fillOf (snd (updateProgress k p u s)) j =
      valueStyle s3 (rootChildren s ! nat j)"
    using j l by (subst fillOf_inside) (simp_all add: fin c3)
  moreover have "fillOf s j = valueStyle s (rootChildren s ! nat j)"
    using j l by (simp add: fillOf_inside)
  ultimately show ?thesis using v3 by simp
qed

lemma updateProgress_fillOf_outside:
  "\<not> (0 \<le> j \<and> j < int (length (rootChildren s))) \<Longrightarrow>
   fillOf (snd (updateProgress k p u s)) j = fillOf s j"
  by (simp add: fillOf_outside)

lemma updateProgress_valueStyle_outside:
  assumes "e \<notin> set (rootChildren s)"
  shows "valueStyle (snd (updateProgress k p u s)) e = valueStyle s e"
proof (cases "segmentIdMap s k")
  case None
  then show ?thesis by (simp add: updateProgress_None)
next
  case (Some i)
  then show ?thesis
    using assms
    by (simp add: updateProgress_Some Let_def updateSegments_def
        updateSegments_for_value_outside updateProgressByIndex_value_outside)
qed

section \<open>The active state after an update\<close>

lemma updateProgress_active:
  assumes "segmentIdMap s k = Some i"
  shows "activeSegmentIndex (snd (updateProgress k p u s)) = i"
    and "activeSegmentProgress (snd (updateProgress k p u s)) = p"
    and "activeSegmentId (snd (updateProgress k p u s)) = k"
  using assms by (simp_all add: updateProgress_Some)

lemma afterFirstPage_facts:
  "reachable afterFirstPage"
  "segmentCount afterFirstPage = 3"
  "activeSegmentIndex afterFirstPage = 0"
  "activeSegmentProgress afterFirstPage = 1"
  "segmentIdMap afterFirstPage (pageId 1) = Some 1"
  "segmentIdMap afterFirstPage (pageId 0) = Some 0"
proof -
  have r: "segmentIdMap (story 3) (pageId 0) = Some 0"
    using story_registry(2) [of 0 3] by simp
  show "reachable afterFirstPage"
    unfolding afterFirstPage_def by (intro reach_updateProgress reachable_story)
  show "segmentCount afterFirstPage = 3"
    by (simp add: afterFirstPage_def story_registry)
  show "activeSegmentIndex afterFirstPage = 0"
    unfolding afterFirstPage_def using r by (rule updateProgress_active)
  show "activeSegmentProgress afterFirstPage = 1"
    unfolding afterFirstPage_def using r by (rule updateProgress_active)
  show "segmentIdMap afterFirstPage (pageId 1) = Some 1"
    using story_registry(2) [of 1 3] by (simp add: afterFirstPage_def)
  show "segmentIdMap afterFirstPage (pageId 0) = Some 0"
    using r by (simp add: afterFirstPage_def)
qed

section \<open>Resynchronising the other segments\<close>

text \<open>
  C7. When a progress update resolves to another index than the active one, or is asked to
  update all segments, every segment of the bar other than the new active one gets the fill
  1 if it stands before the new active index and 0 otherwise. Such a segment carries a
  transition only if it is the previously active segment, and the previously active segment
  (where it is one of these other segments) carries it exactly when (a) the old and the new
  progress are both 1, or (b) the index increased and the new progress is not 1, or (c) the
  index decreased and the new progress is 1.
\<close>

theorem updateProgress_resynchronises_other_segments:
  assumes "reachable s" and "segmentIdMap s segId = Some idx"
    and "activeSegmentIndex s \<noteq> idx \<or> updateAll"
  shows "\<forall>i. 0 \<le> i \<and> i < segmentCount s \<and> i \<noteq> idx \<longrightarrow>
      fillValue (snd (updateProgress segId p updateAll s)) i = Some (if i < idx then 1 else 0) \<and>
      (animates (snd (updateProgress segId p updateAll s)) i \<longleftrightarrow>
         i = activeSegmentIndex s \<and>
         ((activeSegmentProgress s = 1 \<and> p = 1) \<or>
          (activeSegmentIndex s < idx \<and> p \<noteq> 1) \<or>
          (idx < activeSegmentIndex s \<and> p = 1)))"
proof (intro allI impI)
  fix i assume i: "0 \<le> i \<and> i < segmentCount s \<and> i \<noteq> idx"
  have ok: "registryOk s" using assms(1) by (rule reachable_registryOk)
  have sh: "shouldAnimatePreviousSegment idx p (activeSegmentIndex s) (activeSegmentProgress s) \<longleftrightarrow>
      (activeSegmentProgress s = 1 \<and> p = 1) \<or>
      (activeSegmentIndex s < idx \<and> p \<noteq> 1) \<or>
      (idx < activeSegmentIndex s \<and> p = 1)"
    by (auto simp: shouldAnimatePreviousSegment_def Let_def)
  have "fillOf (snd (updateProgress segId p updateAll s)) i =
      Some (if i < idx then 1 else 0,
            if shouldAnimatePreviousSegment idx p (activeSegmentIndex s) (activeSegmentProgress s)
               \<and> i = activeSegmentIndex s
            then TRANSITION_EASE else TRANSITION_NONE)"
    using updateProgress_fillOf [OF ok assms(2), of i p updateAll] i assms(3) by simp
  then show "fillValue (snd (updateProgress segId p updateAll s)) i = Some (if i < idx then 1 else 0) \<and>
      (animates (snd (updateProgress segId p updateAll s)) i \<longleftrightarrow>
         i = activeSegmentIndex s \<and>
         ((activeSegmentProgress s = 1 \<and> p = 1) \<or>
          (activeSegmentIndex s < idx \<and> p \<noteq> 1) \<or>
          (idx < activeSegmentIndex s \<and> p = 1)))"
    unfolding fillValue_def animates_def sh by auto
qed

theorem updateProgress_resynchronises_other_segments_witness:
  "reachable afterFirstPage \<and> segmentIdMap afterFirstPage (pageId 1) = Some 1 \<and>
   activeSegmentIndex afterFirstPage \<noteq> 1 \<and>
   fillValue (snd (updateProgress (pageId 1) (3 / 10) False afterFirstPage)) 0 = Some 1 \<and>
   animates (snd (updateProgress (pageId 1) (3 / 10) False afterFirstPage)) 0 \<and>
   fillValue (snd (updateProgress (pageId 1) (3 / 10) False afterFirstPage)) 2 = Some 0 \<and>
   \<not> animates (snd (updateProgress (pageId 1) (3 / 10) False afterFirstPage)) 2"
proof -
  have a: "activeSegmentIndex afterFirstPage \<noteq> 1 \<or> False"
    by (simp add: afterFirstPage_facts)
  note t = updateProgress_resynchronises_other_segments
    [OF afterFirstPage_facts(1) afterFirstPage_facts(5) a, of "3 / 10"]
  from t [rule_format, of 0] t [rule_format, of 2] afterFirstPage_facts show ?thesis
    by simp
qed

section \<open>Progress of the active segment\<close>

text \<open>
  C10. A progress update for the segment that is already the active one, without the
  request to update all segments, succeeds and writes no other segment's progress value:
  the fill and the transition of every other position of the bar are what they were, as
  are those of every element outside the bar; the active segment gets the new fill.
\<close>

theorem updateProgress_active_segment_only:
  assumes "reachable s" and "segmentIdMap s segId = Some (activeSegmentIndex s)"
  shows "fst (updateProgress segId p False s) = Inr () \<and>
     (\<forall>i. i \<noteq> activeSegmentIndex s \<longrightarrow>
        fillOf (snd (updateProgress segId p False s)) i = fillOf s i) \<and>
     (\<forall>e. e \<notin> set (rootChildren s) \<longrightarrow>
        valueStyle (snd (updateProgress segId p False s)) e = valueStyle s e) \<and>
     fillOf (snd (updateProgress segId p False s)) (activeSegmentIndex s) =
       Some (p, if p = 1 \<or> p = 0 then TRANSITION_EASE else TRANSITION_LINEAR)"
proof -
  have ok: "registryOk s" using assms(1) by (rule reachable_registryOk)
  then have l: "int (length (rootChildren s)) = segmentCount s"
    by (simp add: registryOk_def)
  from ok assms(2) have a: "0 \<le> activeSegmentIndex s" "activeSegmentIndex s < segmentCount s"
    by (auto simp: registryOk_def)
  have 1: "fst (updateProgress segId p False s) = Inr ()"
    using assms(2) by (simp add: updateProgress_Some)
  have 2: "fillOf (snd (updateProgress segId p False s)) i = fillOf s i"
    if "i \<noteq> activeSegmentIndex s" for i
  proof (cases "0 \<le> i \<and> i < segmentCount s")
    case True
    then show ?thesis
      using updateProgress_fillOf [OF ok assms(2), of i p False] that by simp
  next
    case False
    then show ?thesis using l by (simp add: updateProgress_fillOf_outside)
  qed
  have 3: "valueStyle (snd (updateProgress segId p False s)) e = valueStyle s e"
    if "e \<notin> set (rootChildren s)" for e
    using that by (rule updateProgress_valueStyle_outside)
  have 4: "fillOf (snd (updateProgress segId p False s)) (activeSegmentIndex s) =
       Some (p, if p = 1 \<or> p = 0 then TRANSITION_EASE else TRANSITION_LINEAR)"
    using updateProgress_fillOf [OF ok assms(2) a, of p False] by simp
  from 1 2 3 4 show ?thesis by blast
qed

theorem updateProgress_active_segment_only_witness:
  "reachable afterFirstPage \<and>
   segmentIdMap afterFirstPage (pageId 0) = Some (activeSegmentIndex afterFirstPage) \<and>
   fst (updateProgress (pageId 0) (1 / 2) False afterFirstPage) = Inr () \<and>
   fillOf (snd (updateProgress (pageId 0) (1 / 2) False afterFirstPage)) 1 = fillOf afterFirstPage 1 \<and>
   fillOf (snd (updateProgress (pageId 0) (1 / 2) False afterFirstPage)) 0 =
     Some (1 / 2, TRANSITION_LINEAR)"
proof -
  have m: "segmentIdMap afterFirstPage (pageId 0) = Some (activeSegmentIndex afterFirstPage)"
    by (simp add: afterFirstPage_facts)
  note t = updateProgress_active_segment_only [OF afterFirstPage_facts(1) m, of "1 / 2"]
  from t afterFirstPage_facts
  have "fillOf (snd (updateProgress (pageId 0) (1 / 2) False afterFirstPage)) 1 =
      fillOf afterFirstPage 1"
    by simp
  with t m afterFirstPage_facts show ?thesis
    by simp
qed

section \<open>The window\<close>

lemma js_rem_nonneg: "0 \<le> a \<Longrightarrow> 0 < b \<Longrightarrow> js_rem a b = a mod b"
  by (cases "a = 0") (simp_all add: js_rem_def)

lemma getInitial_first:
  "firstExpandedSegmentIndex (getInitialFirstExpandedSegmentIndex i s) =
     (if i > 20 \<and> i + 20 < segmentCount s then i - i mod 20
      else if i > 20 then segmentCount s - 20
      else firstExpandedSegmentIndex s)"
  by (simp add: getInitialFirstExpandedSegmentIndex_def MAX_SEGMENTS_def js_rem_nonneg)

lemma checkIndexForOverflow_first:
  "firstExpandedSegmentIndex (checkIndexForOverflow s) =
     (if activeSegmentIndex s \<ge> firstExpandedSegmentIndex s + 20 then
        (if firstExpandedSegmentIndex s + 24 < segmentCount s
         then firstExpandedSegmentIndex s + 5 else segmentCount s - 20)
      else if activeSegmentIndex s < firstExpandedSegmentIndex s then
        max 0 (firstExpandedSegmentIndex s - 5)
      else firstExpandedSegmentIndex s)"
  by (simp add: checkIndexForOverflow_def MAX_SEGMENTS_def SEGMENT_INCREMENT_def Let_def)

lemma checkIndexForOverflow_renderLog:
  "renderLog (checkIndexForOverflow s) =
     renderLog s @
     (if activeSegmentIndex s \<ge> firstExpandedSegmentIndex s + 20 \<or>
         activeSegmentIndex s < firstExpandedSegmentIndex s
      then [True] else [])"
  by (simp add: checkIndexForOverflow_def MAX_SEGMENTS_def SEGMENT_INCREMENT_def Let_def)

lemma checkIndexForOverflow_inside:
  "firstExpandedSegmentIndex s \<le> activeSegmentIndex s \<Longrightarrow>
   activeSegmentIndex s < firstExpandedSegmentIndex s + 20 \<Longrightarrow>
   checkIndexForOverflow s = s"
  by (simp add: checkIndexForOverflow_def MAX_SEGMENTS_def)

text \<open>The state in which a successful update checks the overflow: the new active state is
  stored, and the window is the initial window when the stored active index was 0.\<close>

lemma updateProgress_checks:
  assumes "segmentIdMap s k = Some i"
  shows "\<exists>t. snd (updateProgress k p u s) = checkIndexForOverflow t \<and>
     activeSegmentIndex t = i \<and> segmentCount t = segmentCount s \<and>
     firstExpandedSegmentIndex t =
       (if activeSegmentIndex s = 0
        then firstExpandedSegmentIndex (getInitialFirstExpandedSegmentIndex i s)
        else firstExpandedSegmentIndex s) \<and>
     renderLog t = renderLog s @ (if activeSegmentIndex s = 0 then [False] else [])"
proof -
  define t where "t =
    (let s1 = updateProgressByIndex i p True s;
         s2 = (if activeSegmentIndex s = 0 then
                 render False (getInitialFirstExpandedSegmentIndex i s1)
               else s1)
     in if activeSegmentIndex s \<noteq> i \<or> u then
          updateSegments i p (activeSegmentIndex s) (activeSegmentProgress s) s2
        else s2)
    \<lparr>activeSegmentProgress := p, activeSegmentIndex := i, activeSegmentId := k\<rparr>"
  have 1: "snd (updateProgress k p u s) = checkIndexForOverflow t"
    using assms by (simp add: updateProgress_Some t_def)
  have 2: "activeSegmentIndex t = i" "segmentCount t = segmentCount s"
    by (simp_all add: t_def Let_def)
  have 3: "firstExpandedSegmentIndex t =
       (if activeSegmentIndex s = 0
        then firstExpandedSegmentIndex (getInitialFirstExpandedSegmentIndex i s)
        else firstExpandedSegmentIndex s)"
    by (simp add: t_def Let_def getInitial_first)
  have 4: "renderLog t = renderLog s @ (if activeSegmentIndex s = 0 then [False] else [])"
    by (simp add: t_def Let_def)
  from 1 2 3 4 show ?thesis by blast
qed

text \<open>The window after a successful update, from the window, the active index and the
  count before it.\<close>

lemma updateProgress_first:
  assumes "segmentIdMap s k = Some i"
  shows "firstExpandedSegmentIndex (snd (updateProgress k p u s)) =
     (let f = (if activeSegmentIndex s = 0 then
                 (if i > 20 \<and> i + 20 < segmentCount s then i - i mod 20
                  else if i > 20 then segmentCount s - 20
                  else firstExpandedSegmentIndex s)
               else firstExpandedSegmentIndex s)
      in if i \<ge> f + 20 then (if f + 24 < segmentCount s then f + 5 else segmentCount s - 20)
         else if i < f then max 0 (f - 5)
         else f)"
proof -
  obtain t where t: "snd (updateProgress k p u s) = checkIndexForOverflow t"
    "activeSegmentIndex t = i" "segmentCount t = segmentCount s"
    "firstExpandedSegmentIndex t =
       (if activeSegmentIndex s = 0
        then firstExpandedSegmentIndex (getInitialFirstExpandedSegmentIndex i s)
        else firstExpandedSegmentIndex s)"
    using updateProgress_checks [OF assms, of p u] by blast
  show ?thesis
    unfolding t(1) checkIndexForOverflow_first t(2,3,4) getInitial_first Let_def ..
qed

section \<open>Moving the window\<close>

text \<open>
  C3. Every successful progress update ends with \<^verbatim>\<open>checkIndexForOverflow_\<close>, run on the
  state that holds the new active index. There the window moves as follows. If the active
  index is at or past the trailing edge, the first expanded index advances by
  \<open>SEGMENT_INCREMENT\<close> when
  \<open>first + MAX_SEGMENTS + SEGMENT_INCREMENT - 1 < segmentCount\<close>, and otherwise by
  \<open>segmentCount - (first + MAX_SEGMENTS)\<close>, after which the window ends at
  \<open>segmentCount\<close>. If the active index is before the leading edge, the first expanded
  index decreases by \<open>SEGMENT_INCREMENT\<close>, clamped at 0. In both cases the bar is rendered
  once, animated. Otherwise the check changes nothing at all: no field, no style, and no
  call of \<^verbatim>\<open>render_\<close>.
\<close>

theorem checkIndexForOverflow_moves_window:
  "(segmentIdMap s0 segId = Some i \<longrightarrow>
      (\<exists>t. snd (updateProgress segId p u s0) = checkIndexForOverflow t \<and>
           activeSegmentIndex t = i \<and> segmentCount t = segmentCount s0 \<and>
           firstExpandedSegmentIndex t =
             (if activeSegmentIndex s0 = 0
              then firstExpandedSegmentIndex (getInitialFirstExpandedSegmentIndex i s0)
              else firstExpandedSegmentIndex s0))) \<and>
   (activeSegmentIndex s \<ge> firstExpandedSegmentIndex s + MAX_SEGMENTS \<longrightarrow>
      firstExpandedSegmentIndex (checkIndexForOverflow s) =
        firstExpandedSegmentIndex s +
        (if firstExpandedSegmentIndex s + MAX_SEGMENTS + SEGMENT_INCREMENT - 1 < segmentCount s
         then SEGMENT_INCREMENT
         else segmentCount s - (firstExpandedSegmentIndex s + MAX_SEGMENTS)) \<and>
      (\<not> firstExpandedSegmentIndex s + MAX_SEGMENTS + SEGMENT_INCREMENT - 1 < segmentCount s \<longrightarrow>
         firstExpandedSegmentIndex (checkIndexForOverflow s) + MAX_SEGMENTS = segmentCount s) \<and>
      renderLog (checkIndexForOverflow s) = renderLog s @ [True]) \<and>
   (activeSegmentIndex s < firstExpandedSegmentIndex s \<longrightarrow>
      firstExpandedSegmentIndex (checkIndexForOverflow s) =
        max 0 (firstExpandedSegmentIndex s - SEGMENT_INCREMENT) \<and>
      renderLog (checkIndexForOverflow s) = renderLog s @ [True]) \<and>
   (firstExpandedSegmentIndex s \<le> activeSegmentIndex s \<and>
    activeSegmentIndex s < firstExpandedSegmentIndex s + MAX_SEGMENTS \<longrightarrow>
      checkIndexForOverflow s = s)"
proof -
  have a: "segmentIdMap s0 segId = Some i \<longrightarrow>
      (\<exists>t. snd (updateProgress segId p u s0) = checkIndexForOverflow t \<and>
           activeSegmentIndex t = i \<and> segmentCount t = segmentCount s0 \<and>
           firstExpandedSegmentIndex t =
             (if activeSegmentIndex s0 = 0
              then firstExpandedSegmentIndex (getInitialFirstExpandedSegmentIndex i s0)
              else firstExpandedSegmentIndex s0))"
    using updateProgress_checks [of s0 segId i p u] by blast
  have b: "activeSegmentIndex s \<ge> firstExpandedSegmentIndex s + MAX_SEGMENTS \<longrightarrow>
      firstExpandedSegmentIndex (checkIndexForOverflow s) =
        firstExpandedSegmentIndex s +
        (if firstExpandedSegmentIndex s + MAX_SEGMENTS + SEGMENT_INCREMENT - 1 < segmentCount s
         then SEGMENT_INCREMENT
         else segmentCount s - (firstExpandedSegmentIndex s + MAX_SEGMENTS)) \<and>
      (\<not> firstExpandedSegmentIndex s + MAX_SEGMENTS + SEGMENT_INCREMENT - 1 < segmentCount s \<longrightarrow>
         firstExpandedSegmentIndex (checkIndexForOverflow s) + MAX_SEGMENTS = segmentCount s) \<and>
      renderLog (checkIndexForOverflow s) = renderLog s @ [True]"
    by (simp add: checkIndexForOverflow_first checkIndexForOverflow_renderLog
        MAX_SEGMENTS_def SEGMENT_INCREMENT_def)
  have c: "activeSegmentIndex s < firstExpandedSegmentIndex s \<longrightarrow>
      firstExpandedSegmentIndex (checkIndexForOverflow s) =
        max 0 (firstExpandedSegmentIndex s - SEGMENT_INCREMENT) \<and>
      renderLog (checkIndexForOverflow s) = renderLog s @ [True]"
    by (simp add: checkIndexForOverflow_first checkIndexForOverflow_renderLog
        MAX_SEGMENTS_def SEGMENT_INCREMENT_def)
  have d: "firstExpandedSegmentIndex s \<le> activeSegmentIndex s \<and>
      activeSegmentIndex s < firstExpandedSegmentIndex s + MAX_SEGMENTS \<longrightarrow>
      checkIndexForOverflow s = s"
    by (simp add: checkIndexForOverflow_inside MAX_SEGMENTS_def)
  from a b c d show ?thesis by blast
qed

lemma story_pageId: "i < n \<Longrightarrow> segmentIdMap (story n) (pageId i) = Some (int i)"
  by (rule story_registry(2))

theorem checkIndexForOverflow_moves_window_witness:
  "segmentIdMap (story 50) (pageId 20) = Some 20 \<and>
   firstExpandedSegmentIndex (snd (updateProgress (pageId 20) (1 / 2) False (story 50))) = 5 \<and>
   renderLog (snd (updateProgress (pageId 20) (1 / 2) False (story 50))) = [False, True]"
proof -
  have m: "segmentIdMap (story 50) (pageId 20) = Some 20"
    using story_pageId [of 20 50] by simp
  note th = checkIndexForOverflow_moves_window [of "story 50" "pageId 20" 20 "1 / 2" False]
  from th m obtain t where t:
    "snd (updateProgress (pageId 20) (1 / 2) False (story 50)) = checkIndexForOverflow t"
    "activeSegmentIndex t = 20" "segmentCount t = 50" "firstExpandedSegmentIndex t = 0"
    by (auto simp: getInitial_first story_registry)
  have r: "renderLog t = [False]"
  proof -
    obtain t' where t': "snd (updateProgress (pageId 20) (1 / 2) False (story 50)) =
        checkIndexForOverflow t'" "activeSegmentIndex t' = 20"
      "firstExpandedSegmentIndex t' = 0" "renderLog t' = [False]"
      using updateProgress_checks [OF m, of "1 / 2" False]
      by (auto simp: getInitial_first story_registry)
    have "renderLog (checkIndexForOverflow t) = renderLog (checkIndexForOverflow t')"
      using t(1) t'(1) by simp
    then show ?thesis
      by (simp add: checkIndexForOverflow_renderLog t t')
  qed
  from th [of t] t r
  have "firstExpandedSegmentIndex (checkIndexForOverflow t) = 5"
    and "renderLog (checkIndexForOverflow t) = [False, True]"
    by (simp_all add: MAX_SEGMENTS_def SEGMENT_INCREMENT_def)
  with t(1) m show ?thesis by simp
qed

section \<open>The initial window\<close>

text \<open>
  C4. \<^verbatim>\<open>getInitialFirstExpandedSegmentIndex_\<close> chooses the window from the index \<open>i\<close> of
  the update: \<open>i - (i mod MAX_SEGMENTS)\<close> if \<open>i > MAX_SEGMENTS\<close> and
  \<open>i + MAX_SEGMENTS < segmentCount\<close>; else \<open>segmentCount - MAX_SEGMENTS\<close> if
  \<open>i > MAX_SEGMENTS\<close>; else the window stays where it is, which on a new bar is 0. On the
  new bar of a story of \<open>n\<close> pages the first update leaves the window there (for the index
  20 the overflow check of the same update moves it on, see C3). With 50 pages, the first
  update, for index 25 with progress 0.5, yields the first expanded index 20 with 3 ellipses
  before and 3 after.
\<close>

theorem getInitialFirstExpandedSegmentIndex_window:
  "firstExpandedSegmentIndex (getInitialFirstExpandedSegmentIndex i s) =
     (if i > MAX_SEGMENTS \<and> i + MAX_SEGMENTS < segmentCount s then i - i mod MAX_SEGMENTS
      else if i > MAX_SEGMENTS then segmentCount s - MAX_SEGMENTS
      else firstExpandedSegmentIndex s) \<and>
   firstExpandedSegmentIndex (story n) = 0 \<and>
   (j < n \<and> j \<noteq> 20 \<longrightarrow>
      firstExpandedSegmentIndex (snd (updateProgress (pageId j) p u (story n))) =
        (if int j > MAX_SEGMENTS \<and> int j + MAX_SEGMENTS < int n
         then int j - int j mod MAX_SEGMENTS
         else if int j > MAX_SEGMENTS then int n - MAX_SEGMENTS
         else 0)) \<and>
   firstExpandedSegmentIndex (snd (updateProgress (pageId 25) (1 / 2) False (story 50))) = 20 \<and>
   getPrevEllipsisCount (snd (updateProgress (pageId 25) (1 / 2) False (story 50))) = 3 \<and>
   getNextEllipsisCount (snd (updateProgress (pageId 25) (1 / 2) False (story 50))) = 3"
proof -
  have a: "firstExpandedSegmentIndex (getInitialFirstExpandedSegmentIndex i s) =
     (if i > MAX_SEGMENTS \<and> i + MAX_SEGMENTS < segmentCount s then i - i mod MAX_SEGMENTS
      else if i > MAX_SEGMENTS then segmentCount s - MAX_SEGMENTS
      else firstExpandedSegmentIndex s)"
    by (simp add: getInitial_first MAX_SEGMENTS_def)
  have b: "firstExpandedSegmentIndex (snd (updateProgress (pageId j) p u (story n))) =
        (if int j > MAX_SEGMENTS \<and> int j + MAX_SEGMENTS < int n
         then int j - int j mod MAX_SEGMENTS
         else if int j > MAX_SEGMENTS then int n - MAX_SEGMENTS
         else 0)" if j: "j < n" "j \<noteq> 20" for j n p u
  proof -
    have m: "segmentIdMap (story n) (pageId j) = Some (int j)"
      using j(1) by (rule story_pageId)
    have r: "0 \<le> int j mod 20" "int j mod 20 < 20" by simp_all
    show ?thesis
      unfolding updateProgress_first [OF m] MAX_SEGMENTS_def Let_def
      using j r by (simp add: story_registry) linarith
  qed
  have c: "firstExpandedSegmentIndex (snd (updateProgress (pageId 25) (1 / 2) False (story 50))) = 20"
    using b [of 25 50 "1 / 2" False] by (simp add: MAX_SEGMENTS_def)
  have d: "getPrevEllipsisCount (snd (updateProgress (pageId 25) (1 / 2) False (story 50))) = 3"
    by (simp add: getPrevEllipsisCount_def c)
  have e: "getNextEllipsisCount (snd (updateProgress (pageId 25) (1 / 2) False (story 50))) = 3"
    by (simp add: getNextEllipsisCount_def c story_registry MAX_SEGMENTS_def)
  from a b c d e show ?thesis by simp
qed

theorem getInitialFirstExpandedSegmentIndex_window_witness:
  "(45::nat) < 50 \<and> (45::nat) \<noteq> 20 \<and>
   firstExpandedSegmentIndex (snd (updateProgress (pageId 45) (1 / 2) False (story 50))) = 30"
  using getInitialFirstExpandedSegmentIndex_window [of 0 "story 50" 50 45 "1 / 2" False]
  by (simp add: MAX_SEGMENTS_def)

section \<open>Playing a story forward\<close>

lemma build_constructor_unfold:
  "build ks w (constructor rtl) =
     (fold addPageId ks (constructor rtl))
       \<lparr>dirRtl := rtl, barWidthPx := w - 4, isBuilt := True\<rparr>"
  by (simp add: build_def onPageIds_def Let_def onRtlStateUpdate_def
      PROGRESS_BAR_PADDING_PX_def constructor_def)

lemma build_constructor_fresh:
  assumes "distinct ks"
  shows "segmentCount (build ks w (constructor rtl)) = int (length ks)"
    and "\<forall>j < length ks. segmentIdMap (build ks w (constructor rtl)) (ks ! j) = Some (int j)"
    and "activeSegmentIndex (build ks w (constructor rtl)) = 0"
    and "firstExpandedSegmentIndex (build ks w (constructor rtl)) = 0"
proof -
  have fresh: "\<forall>k \<in> set ks. segmentIdMap (constructor rtl) k = None"
    by (simp add: constructor_def)
  note f = fold_addPageId_fresh [OF assms fresh]
  show "segmentCount (build ks w (constructor rtl)) = int (length ks)"
    using f(1) by (simp add: build_constructor_unfold) (simp add: constructor_def)
  show "\<forall>j < length ks. segmentIdMap (build ks w (constructor rtl)) (ks ! j) = Some (int j)"
    using f(2) by (simp add: build_constructor_unfold) (simp add: constructor_def)
  show "activeSegmentIndex (build ks w (constructor rtl)) = 0"
    by (simp add: build_constructor_unfold) (simp add: constructor_def)
  show "firstExpandedSegmentIndex (build ks w (constructor rtl)) = 0"
    by (simp add: build_constructor_unfold) (simp add: constructor_def)
qed

text \<open>One step forward: the update for the index that follows the active one (or for
  index 0 on a new bar) keeps the active index inside the window and never moves the
  window back.\<close>

lemma forward_step:
  assumes m: "segmentIdMap s k = Some (int i)"
    and n: "segmentCount s = int n" "i < n"
    and a: "activeSegmentIndex s = max 0 (int i - 1)"
    and f: "0 \<le> firstExpandedSegmentIndex s"
      "firstExpandedSegmentIndex s \<le> activeSegmentIndex s"
      "activeSegmentIndex s < firstExpandedSegmentIndex s + 20"
      "firstExpandedSegmentIndex s + 20 \<le> int n"
  shows "firstExpandedSegmentIndex s \<le> firstExpandedSegmentIndex (snd (updateProgress k p u s))"
    and "0 \<le> firstExpandedSegmentIndex (snd (updateProgress k p u s))"
    and "firstExpandedSegmentIndex (snd (updateProgress k p u s)) \<le> int i"
    and "int i < firstExpandedSegmentIndex (snd (updateProgress k p u s)) + 20"
    and "firstExpandedSegmentIndex (snd (updateProgress k p u s)) + 20 \<le> int n"
proof -
  have mid: "(if activeSegmentIndex s = 0 then
                 (if int i > 20 \<and> int i + 20 < int n then int i - int i mod 20
                  else if int i > 20 then int n - 20
                  else firstExpandedSegmentIndex s)
               else firstExpandedSegmentIndex s) = firstExpandedSegmentIndex s"
    using a by auto
  have e: "firstExpandedSegmentIndex (snd (updateProgress k p u s)) =
      (if int i \<ge> firstExpandedSegmentIndex s + 20 then
         (if firstExpandedSegmentIndex s + 24 < int n
          then firstExpandedSegmentIndex s + 5 else int n - 20)
       else if int i < firstExpandedSegmentIndex s then max 0 (firstExpandedSegmentIndex s - 5)
       else firstExpandedSegmentIndex s)"
    by (simp only: updateProgress_first [OF m] n(1) Let_def mid)
  show "firstExpandedSegmentIndex s \<le> firstExpandedSegmentIndex (snd (updateProgress k p u s))"
    unfolding e using a f n by auto
  show "0 \<le> firstExpandedSegmentIndex (snd (updateProgress k p u s))"
    unfolding e using a f n by auto
  show "firstExpandedSegmentIndex (snd (updateProgress k p u s)) \<le> int i"
    unfolding e using a f n by auto
  show "int i < firstExpandedSegmentIndex (snd (updateProgress k p u s)) + 20"
    unfolding e using a f n by auto
  show "firstExpandedSegmentIndex (snd (updateProgress k p u s)) + 20 \<le> int n"
    unfolding e using a f n by auto
qed

lemma play_forward:
  assumes "\<forall>j < length ks. segmentIdMap s (ks ! j) = Some (int j)"
    and "segmentCount s = int (length ks)"
    and "activeSegmentIndex s = max 0 (int i - 1)"
    and "0 \<le> firstExpandedSegmentIndex s"
    and "firstExpandedSegmentIndex s \<le> activeSegmentIndex s"
    and "activeSegmentIndex s < firstExpandedSegmentIndex s + 20"
    and "firstExpandedSegmentIndex s + 20 \<le> int (length ks)"
    and "i + length pus = length ks"
  shows "\<exists>tr. play s (zip (drop i ks) pus) = Inr tr \<and> length tr = length pus \<and>
     (\<forall>j < length pus.
        activeSegmentIndex (tr ! j) = int (i + j) \<and>
        firstExpandedSegmentIndex (if j = 0 then s else tr ! (j - 1))
          \<le> firstExpandedSegmentIndex (tr ! j) \<and>
        0 \<le> firstExpandedSegmentIndex (tr ! j) \<and>
        firstExpandedSegmentIndex (tr ! j) \<le> int (i + j) \<and>
        int (i + j) < firstExpandedSegmentIndex (tr ! j) + 20 \<and>
        firstExpandedSegmentIndex (tr ! j) + 20 \<le> int (length ks))"
  using assms
proof (induction pus arbitrary: s i)
  case Nil
  then show ?case by simp
next
  case (Cons pu pus)
  obtain p u where pu: "pu = (p, u)" by (cases pu)
  from Cons.prems(8) have i: "i < length ks" by simp
  then have d: "drop i ks = ks ! i # drop (Suc i) ks"
    by (simp add: Cons_nth_drop_Suc)
  have m: "segmentIdMap s (ks ! i) = Some (int i)"
    using Cons.prems(1) i by simp
  define s' where "s' = snd (updateProgress (ks ! i) p u s)"
  have ok: "fst (updateProgress (ks ! i) p u s) = Inr ()"
    using m by (simp add: updateProgress_Some)
  note st = forward_step [OF m Cons.prems(2) i Cons.prems(3,4,5,6,7), of p u, folded s'_def]
  have act: "activeSegmentIndex s' = int i"
    unfolding s'_def using m by (rule updateProgress_active)
  have "\<exists>tr. play s' (zip (drop (Suc i) ks) pus) = Inr tr \<and> length tr = length pus \<and>
     (\<forall>j < length pus.
        activeSegmentIndex (tr ! j) = int (Suc i + j) \<and>
        firstExpandedSegmentIndex (if j = 0 then s' else tr ! (j - 1))
          \<le> firstExpandedSegmentIndex (tr ! j) \<and>
        0 \<le> firstExpandedSegmentIndex (tr ! j) \<and>
        firstExpandedSegmentIndex (tr ! j) \<le> int (Suc i + j) \<and>
        int (Suc i + j) < firstExpandedSegmentIndex (tr ! j) + 20 \<and>
        firstExpandedSegmentIndex (tr ! j) + 20 \<le> int (length ks))"
  proof (rule Cons.IH)
    show "\<forall>j < length ks. segmentIdMap s' (ks ! j) = Some (int j)"
      using Cons.prems(1) by (simp add: s'_def)
    show "segmentCount s' = int (length ks)"
      using Cons.prems(2) by (simp add: s'_def)
    show "activeSegmentIndex s' = max 0 (int (Suc i) - 1)"
      using act by simp
    show "0 \<le> firstExpandedSegmentIndex s'" by (rule st(2))
    show "firstExpandedSegmentIndex s' \<le> activeSegmentIndex s'"
      using st(3) act by simp
    show "activeSegmentIndex s' < firstExpandedSegmentIndex s' + 20"
      using st(4) act by simp
    show "firstExpandedSegmentIndex s' + 20 \<le> int (length ks)" by (rule st(5))
    show "Suc i + length pus = length ks" using Cons.prems(8) by simp
  qed
  then obtain tr where tr: "play s' (zip (drop (Suc i) ks) pus) = Inr tr"
    "length tr = length pus"
    and rest: "\<And>j. j < length pus \<Longrightarrow>
        activeSegmentIndex (tr ! j) = int (Suc i + j) \<and>
        firstExpandedSegmentIndex (if j = 0 then s' else tr ! (j - 1))
          \<le> firstExpandedSegmentIndex (tr ! j) \<and>
        0 \<le> firstExpandedSegmentIndex (tr ! j) \<and>
        firstExpandedSegmentIndex (tr ! j) \<le> int (Suc i + j) \<and>
        int (Suc i + j) < firstExpandedSegmentIndex (tr ! j) + 20 \<and>
        firstExpandedSegmentIndex (tr ! j) + 20 \<le> int (length ks)"
    by blast
  have run: "play s (zip (drop i ks) (pu # pus)) = Inr (s' # tr)"
    using ok tr(1) by (simp add: d pu s'_def)
  have "activeSegmentIndex ((s' # tr) ! j) = int (i + j) \<and>
        firstExpandedSegmentIndex (if j = 0 then s else (s' # tr) ! (j - 1))
          \<le> firstExpandedSegmentIndex ((s' # tr) ! j) \<and>
        0 \<le> firstExpandedSegmentIndex ((s' # tr) ! j) \<and>
        firstExpandedSegmentIndex ((s' # tr) ! j) \<le> int (i + j) \<and>
        int (i + j) < firstExpandedSegmentIndex ((s' # tr) ! j) + 20 \<and>
        firstExpandedSegmentIndex ((s' # tr) ! j) + 20 \<le> int (length ks)"
    if j: "j < length (pu # pus)" for j
  proof (cases j)
    case 0
    then show ?thesis using st act by simp
  next
    case (Suc j')
    then have "j' < length pus" using j by simp
    from rest [OF this] Suc show ?thesis
      by (cases j') simp_all
  qed
  with run tr(2) show ?case by auto
qed

text \<open>
  C6. On the new bar of a story of \<open>n > MAX_SEGMENTS\<close> pages, the progress updates for the
  pages in their order (index 0, 1, ..., \<open>n - 1\<close>, with any progress values and flags) all
  succeed; the first expanded index never decreases from one update to the next (nor from
  the new bar to the first update); after each update the active index lies inside the
  window, hence inside the range of the window and its ellipses; and after the last update
  the window ends at \<open>n\<close>.
\<close>

theorem forward_play_window:
  assumes "distinct ks" and "length ks = n" and "MAX_SEGMENTS < int n" and "length pus = n"
  shows "\<exists>tr. play (build ks w (constructor rtl)) (zip ks pus) = Inr tr \<and> length tr = n \<and>
     (\<forall>j < n.
        activeSegmentIndex (tr ! j) = int j \<and>
        firstExpandedSegmentIndex (if j = 0 then build ks w (constructor rtl) else tr ! (j - 1))
          \<le> firstExpandedSegmentIndex (tr ! j) \<and>
        firstExpandedSegmentIndex (tr ! j) \<le> int j \<and>
        int j < firstExpandedSegmentIndex (tr ! j) + MAX_SEGMENTS \<and>
        firstExpandedSegmentIndex (tr ! j) - getPrevEllipsisCount (tr ! j) \<le> int j \<and>
        int j < firstExpandedSegmentIndex (tr ! j) + MAX_SEGMENTS + getNextEllipsisCount (tr ! j)) \<and>
     firstExpandedSegmentIndex (last tr) + MAX_SEGMENTS = int n"
proof -
  let ?s = "build ks w (constructor rtl)"
  note b = build_constructor_fresh [OF assms(1), of w rtl]
  have big: "20 < n" using assms(3) by (simp add: MAX_SEGMENTS_def)
  have "\<exists>tr. play ?s (zip (drop 0 ks) pus) = Inr tr \<and> length tr = length pus \<and>
     (\<forall>j < length pus.
        activeSegmentIndex (tr ! j) = int (0 + j) \<and>
        firstExpandedSegmentIndex (if j = 0 then ?s else tr ! (j - 1))
          \<le> firstExpandedSegmentIndex (tr ! j) \<and>
        0 \<le> firstExpandedSegmentIndex (tr ! j) \<and>
        firstExpandedSegmentIndex (tr ! j) \<le> int (0 + j) \<and>
        int (0 + j) < firstExpandedSegmentIndex (tr ! j) + 20 \<and>
        firstExpandedSegmentIndex (tr ! j) + 20 \<le> int (length ks))"
    by (rule play_forward) (use b assms big in simp_all)
  then obtain tr where run: "play ?s (zip ks pus) = Inr tr" and len: "length tr = n"
    and inv: "\<And>j. j < n \<Longrightarrow>
        activeSegmentIndex (tr ! j) = int j \<and>
        firstExpandedSegmentIndex (if j = 0 then ?s else tr ! (j - 1))
          \<le> firstExpandedSegmentIndex (tr ! j) \<and>
        0 \<le> firstExpandedSegmentIndex (tr ! j) \<and>
        firstExpandedSegmentIndex (tr ! j) \<le> int j \<and>
        int j < firstExpandedSegmentIndex (tr ! j) + 20 \<and>
        firstExpandedSegmentIndex (tr ! j) + 20 \<le> int n"
    using assms(2,4) by auto
  have each: "activeSegmentIndex (tr ! j) = int j \<and>
        firstExpandedSegmentIndex (if j = 0 then ?s else tr ! (j - 1))
          \<le> firstExpandedSegmentIndex (tr ! j) \<and>
        firstExpandedSegmentIndex (tr ! j) \<le> int j \<and>
        int j < firstExpandedSegmentIndex (tr ! j) + MAX_SEGMENTS \<and>
        firstExpandedSegmentIndex (tr ! j) - getPrevEllipsisCount (tr ! j) \<le> int j \<and>
        int j < firstExpandedSegmentIndex (tr ! j) + MAX_SEGMENTS + getNextEllipsisCount (tr ! j)"
    if "j < n" for j
  proof -
    have p: "0 \<le> getPrevEllipsisCount (tr ! j)"
      using inv [OF that] by (simp add: getPrevEllipsisCount_def)
    have q: "0 \<le> getNextEllipsisCount (tr ! j)"
      by (simp add: getNextEllipsisCount_def Let_def)
    from inv [OF that] p q show ?thesis
      by (simp add: MAX_SEGMENTS_def)
  qed
  have "tr \<noteq> []" using len big by auto
  then have "last tr = tr ! (n - 1)" using len by (simp add: last_conv_nth)
  moreover have "n - 1 < n" using big by simp
  ultimately have fin: "firstExpandedSegmentIndex (last tr) + MAX_SEGMENTS = int n"
    using inv [of "n - 1"] big by (simp add: MAX_SEGMENTS_def)
  from run len each fin show ?thesis by blast
qed

theorem forward_play_window_witness:
  "distinct (pageIds 23) \<and> length (pageIds 23) = 23 \<and> MAX_SEGMENTS < int 23 \<and>
   length (replicate 23 (1 :: real, False)) = 23 \<and>
   (\<exists>tr. play (story 23) (zip (pageIds 23) (replicate 23 (1, False))) = Inr tr \<and>
         length tr = 23 \<and> firstExpandedSegmentIndex (last tr) + MAX_SEGMENTS = 23)"
proof -
  have h: "distinct (pageIds 23)" "length (pageIds 23) = 23" "MAX_SEGMENTS < int 23"
    "length (replicate 23 (1 :: real, False)) = 23"
    by (simp_all add: distinct_pageIds MAX_SEGMENTS_def)
  from forward_play_window [OF h, of 364 False] h show ?thesis
    unfolding story_def by auto
qed

section \<open>When the initial window is computed\<close>

lemma clear_fields [simp]:
  "segmentCount (clear s) = 0"
  "segmentIdMap (clear s) = Map.empty"
  "rootChildren (clear s) = []"
  "segments (clear s) = segments s"
  "nextElement (clear s) = nextElement s"
  "isBuilt (clear s) = isBuilt s"
  "activeSegmentIndex (clear s) = activeSegmentIndex s"
  "activeSegmentProgress (clear s) = activeSegmentProgress s"
  "activeSegmentId (clear s) = activeSegmentId s"
  "firstExpandedSegmentIndex (clear s) = firstExpandedSegmentIndex s"
  "barWidthPx (clear s) = barWidthPx s"
  "segmentStyle (clear s) = segmentStyle s"
  "valueStyle (clear s) = valueStyle s"
  "animateClass (clear s) = animateClass s"
  "dirRtl (clear s) = dirRtl s"
  "storeRtl (clear s) = storeRtl s"
  "renderLog (clear s) = renderLog s"
  by (simp_all add: clear_def)

lemma updateProgress_renderLog:
  assumes "segmentIdMap s k = Some i"
  shows "renderLog (snd (updateProgress k p u s)) =
     renderLog s @ (if activeSegmentIndex s = 0 then [False] else []) @
     (let f = (if activeSegmentIndex s = 0
               then firstExpandedSegmentIndex (getInitialFirstExpandedSegmentIndex i s)
               else firstExpandedSegmentIndex s)
      in if i \<ge> f + 20 \<or> i < f then [True] else [])"
proof -
  obtain t where t: "snd (updateProgress k p u s) = checkIndexForOverflow t"
    "activeSegmentIndex t = i"
    "firstExpandedSegmentIndex t =
       (if activeSegmentIndex s = 0
        then firstExpandedSegmentIndex (getInitialFirstExpandedSegmentIndex i s)
        else firstExpandedSegmentIndex s)"
    "renderLog t = renderLog s @ (if activeSegmentIndex s = 0 then [False] else [])"
    using updateProgress_checks [OF assms, of p u] by blast
  show ?thesis
    by (simp only: t checkIndexForOverflow_renderLog Let_def append_assoc)
qed

text \<open>The callback for the page ids of a built bar: the registry is cleared and filled
  again, then the update of the stored active id runs.\<close>

lemma onPageIds_built:
  "isBuilt s \<Longrightarrow>
   onPageIds ks s =
     updateProgress (activeSegmentId s) (activeSegmentProgress s) True
       (fold addPageId ks (clear s))"
  by (simp add: onPageIds_def Let_def)

lemma fold_addPageId_clear:
  assumes "distinct ks"
  shows "segmentCount (fold addPageId ks (clear s)) = int (length ks)"
    and "\<forall>j < length ks. segmentIdMap (fold addPageId ks (clear s)) (ks ! j) = Some (int j)"
    and "rootChildren (fold addPageId ks (clear s)) = [nextElement s ..< nextElement s + length ks]"
    and "segments (fold addPageId ks (clear s)) =
           segments s @ [nextElement s ..< nextElement s + length ks]"
proof -
  have fresh: "\<forall>k \<in> set ks. segmentIdMap (clear s) k = None" by simp
  note f = fold_addPageId_fresh [OF assms fresh]
  show "segmentCount (fold addPageId ks (clear s)) = int (length ks)"
    using f(1) by simp
  show "\<forall>j < length ks. segmentIdMap (fold addPageId ks (clear s)) (ks ! j) = Some (int j)"
    using f(2) by simp
  show "rootChildren (fold addPageId ks (clear s)) = [nextElement s ..< nextElement s + length ks]"
    using f(4) by simp
  show "segments (fold addPageId ks (clear s)) =
           segments s @ [nextElement s ..< nextElement s + length ks]"
    using f(5) by simp
qed

text \<open>
  C1, as the code has it. A successful progress update computes the initial window and
  forces the full, non-animated relayout exactly when the stored active index is 0 at the
  call: then the overflow is checked on the initial window, and \<^verbatim>\<open>render_(false)\<close> has
  been called once; otherwise the window is left for the overflow check as it was, and no
  call of \<^verbatim>\<open>render_(false)\<close> is made. The stored active index is 0 on a new bar, and
  after an update it is the index of that update: the first update of a new bar runs the
  step, and so does every later update that follows an update of the segment at index 0.
\<close>

theorem initial_window_iff_active_index_zero:
  assumes "segmentIdMap s segId = Some i"
  shows "(\<exists>t. snd (updateProgress segId p u s) = checkIndexForOverflow t \<and>
          firstExpandedSegmentIndex t =
            (if activeSegmentIndex s = 0
             then firstExpandedSegmentIndex (getInitialFirstExpandedSegmentIndex i s)
             else firstExpandedSegmentIndex s) \<and>
          newRenders s t = (if activeSegmentIndex s = 0 then [False] else [])) \<and>
     (False \<in> set (newRenders s (snd (updateProgress segId p u s))) \<longleftrightarrow>
        activeSegmentIndex s = 0) \<and>
     activeSegmentIndex (snd (updateProgress segId p u s)) = i \<and>
     activeSegmentIndex (constructor rtl) = 0 \<and>
     activeSegmentIndex (build ks w (constructor rtl)) = 0"
proof -
  obtain t where t: "snd (updateProgress segId p u s) = checkIndexForOverflow t"
    "firstExpandedSegmentIndex t =
       (if activeSegmentIndex s = 0
        then firstExpandedSegmentIndex (getInitialFirstExpandedSegmentIndex i s)
        else firstExpandedSegmentIndex s)"
    "renderLog t = renderLog s @ (if activeSegmentIndex s = 0 then [False] else [])"
    using updateProgress_checks [OF assms, of p u] by blast
  have "newRenders s t = (if activeSegmentIndex s = 0 then [False] else [])"
    by (simp add: newRenders_def t(3))
  with t have a: "\<exists>t. snd (updateProgress segId p u s) = checkIndexForOverflow t \<and>
          firstExpandedSegmentIndex t =
            (if activeSegmentIndex s = 0
             then firstExpandedSegmentIndex (getInitialFirstExpandedSegmentIndex i s)
             else firstExpandedSegmentIndex s) \<and>
          newRenders s t = (if activeSegmentIndex s = 0 then [False] else [])"
    by blast
  have b: "False \<in> set (newRenders s (snd (updateProgress segId p u s))) \<longleftrightarrow>
        activeSegmentIndex s = 0"
    by (simp add: newRenders_def updateProgress_renderLog [OF assms] Let_def)
  have c: "activeSegmentIndex (snd (updateProgress segId p u s)) = i"
    using assms by (rule updateProgress_active)
  have d: "activeSegmentIndex (constructor rtl) = 0"
    by (simp add: constructor_def)
  have e: "activeSegmentIndex (build ks w (constructor rtl)) = 0"
    by (simp add: build_constructor_unfold) (simp add: constructor_def)
  from a b c d e show ?thesis by simp
qed

theorem initial_window_iff_active_index_zero_witness:
  "segmentIdMap (story 50) (pageId 25) = Some 25 \<and>
   False \<in> set (newRenders (story 50) (snd (updateProgress (pageId 25) (1 / 2) False (story 50))))"
proof -
  have m: "segmentIdMap (story 50) (pageId 25) = Some 25"
    using story_pageId [of 25 50] by simp
  from initial_window_iff_active_index_zero [OF m, of "1 / 2" False] m show ?thesis
    by simp
qed

text \<open>
  The claim as the specification states it fails: the step is not confined to the first
  call. The second update of the first page of a story, which follows the first update
  with nothing in between, again forces the non-animated relayout.
\<close>

theorem initial_window_not_only_first_call_counterexample:
  "afterFirstPage = snd (updateProgress (pageId 0) 1 False (story 3)) \<and>
   fst (updateProgress (pageId 0) (1 / 2) False afterFirstPage) = Inr () \<and>
   newRenders afterFirstPage (snd (updateProgress (pageId 0) (1 / 2) False afterFirstPage))
     = [False]"
proof -
  have m: "segmentIdMap afterFirstPage (pageId 0) = Some 0"
    by (rule afterFirstPage_facts)
  have f0: "firstExpandedSegmentIndex afterFirstPage = 0"
    unfolding afterFirstPage_def
    using updateProgress_first [OF story_pageId [of 0 3], of 1 False]
    by (simp add: story_registry)
  have a: "newRenders afterFirstPage (snd (updateProgress (pageId 0) (1 / 2) False afterFirstPage))
     = [False]"
    by (simp add: newRenders_def updateProgress_renderLog [OF m] afterFirstPage_facts
        getInitial_first f0)
  have b: "fst (updateProgress (pageId 0) (1 / 2) False afterFirstPage) = Inr ()"
    using m by (simp add: updateProgress_Some)
  have c: "afterFirstPage = snd (updateProgress (pageId 0) 1 False (story 3))"
    by (rule afterFirstPage_def)
  from a b c show ?thesis by blast
qed

section \<open>What a relayout writes\<close>

lemma transform_fields [simp]:
  "segmentCount (transform e x w s) = segmentCount s"
  "segments (transform e x w s) = segments s"
  "firstExpandedSegmentIndex (transform e x w s) = firstExpandedSegmentIndex s"
  "storeRtl (transform e x w s) = storeRtl s"
  "segmentStyle (transform e x w s) =
     (segmentStyle s)(e \<mapsto> (if storeRtl s then x * (- 1) else x, w / ELLIPSE_WIDTH_PX))"
  by (simp_all add: transform_def Let_def)

lemma render_for_stop:
  "\<not> i < segmentCount s \<Longrightarrow> render_for w i t s = s"
  by (simp add: render_for.simps)

lemma render_for_undefined:
  "js_index (segments s) i = None \<Longrightarrow> render_for w i t s = s"
  by (subst render_for.simps) simp

lemma render_for_step:
  "i < segmentCount s \<Longrightarrow> 0 \<le> i \<Longrightarrow> i < int (length (segments s)) \<Longrightarrow>
   render_for w i t s =
     render_for w (i + 1)
       (t + (if firstExpandedSegmentIndex s \<le> i \<and> i < firstExpandedSegmentIndex s + MAX_SEGMENTS
             then w else ELLIPSE_WIDTH_PX) + SEGMENTS_MARGIN_PX)
       (transform (segments s ! nat i) t
          (if firstExpandedSegmentIndex s \<le> i \<and> i < firstExpandedSegmentIndex s + MAX_SEGMENTS
           then w else ELLIPSE_WIDTH_PX) s)"
  by (subst render_for.simps) (simp add: js_index_def Let_def)

text \<open>The loop writes the elements \<^verbatim>\<open>segments_[index]\<close> for \<open>index < segmentCount\<close>
  only.\<close>

lemma render_for_outside:
  "0 \<le> i \<Longrightarrow> e \<notin> set (take (nat (segmentCount s)) (segments s)) \<Longrightarrow>
   segmentStyle (render_for w i t s) e = segmentStyle s e"
proof (induction w i t s rule: render_for.induct)
  case (1 w i t s)
  show ?case
  proof (cases "i < segmentCount s \<and> i < int (length (segments s))")
    case False
    then have "render_for w i t s = s"
      using "1.prems"(1) by (auto simp: render_for_stop render_for_undefined js_index_def)
    then show ?thesis by simp
  next
    case True
    define wd where "wd = (if firstExpandedSegmentIndex s \<le> i \<and>
        i < firstExpandedSegmentIndex s + MAX_SEGMENTS then w else ELLIPSE_WIDTH_PX)"
    have st: "render_for w i t s =
        render_for w (i + 1) (t + wd + SEGMENTS_MARGIN_PX) (transform (segments s ! nat i) t wd s)"
      using True "1.prems"(1) by (simp add: render_for_step wd_def)
    have idx: "js_index (segments s) i = Some (segments s ! nat i)"
      using True "1.prems"(1) by (simp add: js_index_def)
    have mem: "segments s ! nat i \<in> set (take (nat (segmentCount s)) (segments s))"
      using True "1.prems"(1) by (auto simp: in_set_conv_nth intro!: exI [of _ "nat i"])
    with "1.prems"(2) have ne: "e \<noteq> segments s ! nat i" by auto
    have "segmentStyle (render_for w (i + 1) (t + wd + SEGMENTS_MARGIN_PX)
        (transform (segments s ! nat i) t wd s)) e =
        segmentStyle (transform (segments s ! nat i) t wd s) e"
      using "1.IH" [OF _ _ idx, of wd] True "1.prems" by (simp add: wd_def)
    then show ?thesis using st ne by simp
  qed
qed

lemma render_outside:
  "e \<notin> set (take (nat (segmentCount s)) (segments s)) \<Longrightarrow>
   segmentStyle (render a s) e = segmentStyle s e"
  by (simp add: render_def Let_def render_for_outside)

text \<open>Run from left to right and from right to left on the same window, count and
  segments, the loop writes mirrored offsets and equal scales.\<close>

lemma render_for_mirror:
  assumes "segmentCount sT = segmentCount sF" and "segments sT = segments sF"
    and "firstExpandedSegmentIndex sT = firstExpandedSegmentIndex sF"
    and "\<not> storeRtl sF" and "storeRtl sT" and "0 \<le> i"
    and "\<forall>e \<in> set (take (nat i) (segments sF)).
           \<exists>x k. segmentStyle sF e = Some (x, k) \<and> segmentStyle sT e = Some (- x, k)"
  shows "\<forall>e \<in> set (take (nat (max i (segmentCount sF))) (segments sF)).
     \<exists>x k. segmentStyle (render_for w i t sF) e = Some (x, k) \<and>
           segmentStyle (render_for w i t sT) e = Some (- x, k)"
  using assms
proof (induction "nat (segmentCount sF - i)" arbitrary: i t sF sT)
  case 0
  then have stop: "\<not> i < segmentCount sF" "\<not> i < segmentCount sT" by simp_all
  then have "max i (segmentCount sF) = i" by simp
  with stop "0.prems"(7) show ?case by (simp add: render_for_stop)
next
  case (Suc d)
  then have lt: "i < segmentCount sF" "i < segmentCount sT" by simp_all
  then have mx: "max i (segmentCount sF) = segmentCount sF" by simp
  show ?case
  proof (cases "i < int (length (segments sF))")
    case False
    then have all: "take (nat (segmentCount sF)) (segments sF) = take (nat i) (segments sF)"
      using lt by simp
    have "js_index (segments sF) i = None" "js_index (segments sT) i = None"
      using False Suc.prems(2) by (simp_all add: js_index_def)
    then show ?thesis
      using Suc.prems(7) by (simp add: render_for_undefined mx all)
  next
    case True
    define wd where "wd = (if firstExpandedSegmentIndex sF \<le> i \<and>
        i < firstExpandedSegmentIndex sF + MAX_SEGMENTS then w else ELLIPSE_WIDTH_PX)"
    define g where "g = segments sF ! nat i"
    define sF' where "sF' = transform g t wd sF"
    define sT' where "sT' = transform g t wd sT"
    have stF: "render_for w i t sF = render_for w (i + 1) (t + wd + SEGMENTS_MARGIN_PX) sF'"
      using True lt Suc.prems(6)
      by (subst render_for_step) (simp_all add: wd_def g_def sF'_def)
    have stT: "render_for w i t sT = render_for w (i + 1) (t + wd + SEGMENTS_MARGIN_PX) sT'"
      using True lt Suc.prems(2,3,6)
      by (subst render_for_step) (simp_all add: wd_def g_def sT'_def)
    have tk: "take (nat (i + 1)) (segments sF) = take (nat i) (segments sF) @ [g]"
      using True Suc.prems(6)
      by (simp add: nat_add_distrib take_Suc_conv_app_nth g_def)
    have rel: "\<forall>e \<in> set (take (nat (i + 1)) (segments sF')).
        \<exists>x k. segmentStyle sF' e = Some (x, k) \<and> segmentStyle sT' e = Some (- x, k)"
      using Suc.prems(4,5,7) by (auto simp: tk sF'_def sT'_def)
    have d: "d = nat (segmentCount sF' - (i + 1))"
      using Suc.hyps(2) by (simp add: sF'_def)
    have "\<forall>e \<in> set (take (nat (max (i + 1) (segmentCount sF'))) (segments sF')).
       \<exists>x k. segmentStyle (render_for w (i + 1) (t + wd + SEGMENTS_MARGIN_PX) sF') e = Some (x, k) \<and>
             segmentStyle (render_for w (i + 1) (t + wd + SEGMENTS_MARGIN_PX) sT') e = Some (- x, k)"
    proof (rule Suc.hyps(1) [OF d])
      show "segmentCount sT' = segmentCount sF'" using Suc.prems(1) by (simp add: sF'_def sT'_def)
      show "segments sT' = segments sF'" using Suc.prems(2) by (simp add: sF'_def sT'_def)
      show "firstExpandedSegmentIndex sT' = firstExpandedSegmentIndex sF'"
        using Suc.prems(3) by (simp add: sF'_def sT'_def)
      show "\<not> storeRtl sF'" using Suc.prems(4) by (simp add: sF'_def)
      show "storeRtl sT'" using Suc.prems(5) by (simp add: sT'_def)
      show "0 \<le> i + 1" using Suc.prems(6) by simp
      show "\<forall>e \<in> set (take (nat (i + 1)) (segments sF')).
        \<exists>x k. segmentStyle sF' e = Some (x, k) \<and> segmentStyle sT' e = Some (- x, k)"
        by (rule rel)
    qed
    moreover have "max (i + 1) (segmentCount sF') = segmentCount sF" "segments sF' = segments sF"
      using lt by (simp_all add: sF'_def)
    ultimately show ?thesis
      unfolding stF stT mx by simp
  qed
qed

lemma rtlStateChange_fields [simp]:
  "isBuilt (rtlStateChange b s) = isBuilt s"
  "segmentCount (rtlStateChange b s) = segmentCount s"
  "activeSegmentIndex (rtlStateChange b s) = activeSegmentIndex s"
  "activeSegmentProgress (rtlStateChange b s) = activeSegmentProgress s"
  "segmentIdMap (rtlStateChange b s) = segmentIdMap s"
  "activeSegmentId (rtlStateChange b s) = activeSegmentId s"
  "segments (rtlStateChange b s) = segments s"
  "firstExpandedSegmentIndex (rtlStateChange b s) = firstExpandedSegmentIndex s"
  "barWidthPx (rtlStateChange b s) = barWidthPx s"
  "rootChildren (rtlStateChange b s) = rootChildren s"
  "nextElement (rtlStateChange b s) = nextElement s"
  "segmentStyle (rtlStateChange b s) = segmentStyle s"
  "valueStyle (rtlStateChange b s) = valueStyle s"
  "animateClass (rtlStateChange b s) = animateClass s"
  "dirRtl (rtlStateChange b s) = b"
  "storeRtl (rtlStateChange b s) = b"
  "renderLog (rtlStateChange b s) = renderLog s"
  by (simp_all add: rtlStateChange_def onRtlStateUpdate_def)

lemma layout_ignores_direction:
  "getNextEllipsisCount (rtlStateChange b s) = getNextEllipsisCount s"
  "getPrevEllipsisCount (rtlStateChange b s) = getPrevEllipsisCount s"
  "getSegmentWidth (rtlStateChange b s) = getSegmentWidth s"
  by (simp_all add: getNextEllipsisCount_def getPrevEllipsisCount_def getSegmentWidth_def)

section \<open>Direction\<close>

text \<open>
  C9. Take any state, and render it once after the store has switched to left-to-right
  and once after it has switched to right-to-left. Every segment the relayout writes
  (\<^verbatim>\<open>segments_[index]\<close> for \<open>index < segmentCount\<close>) gets, from right to left, the negated
  offset and the same scale (the width over the ellipse width) as from left to right; the
  segment width computed for the window is the same; and the two resulting states differ
  in nothing but the direction flags and these transforms, so nothing of the direction is
  kept in the window or the layout state.
\<close>

theorem direction_mirrors_offsets:
  "(\<forall>e \<in> set (take (nat (segmentCount s)) (segments s)).
      \<exists>x k. segmentStyle (render a (rtlStateChange False s)) e = Some (x, k) \<and>
            segmentStyle (render a (rtlStateChange True s)) e = Some (- x, k)) \<and>
   getSegmentWidth (rtlStateChange True s) = getSegmentWidth (rtlStateChange False s) \<and>
   (render a (rtlStateChange True s))\<lparr>segmentStyle := m, storeRtl := r, dirRtl := r\<rparr> =
   (render a (rtlStateChange False s))\<lparr>segmentStyle := m, storeRtl := r, dirRtl := r\<rparr>"
proof -
  let ?w = "getSegmentWidth s"
  let ?t = "- real_of_int (firstExpandedSegmentIndex s - getPrevEllipsisCount s) *
            (ELLIPSE_WIDTH_PX + SEGMENTS_MARGIN_PX)"
  have "\<forall>e \<in> set (take (nat (max 0 (segmentCount (rtlStateChange False s))))
        (segments (rtlStateChange False s))).
     \<exists>x k. segmentStyle (render_for ?w 0 ?t (rtlStateChange False s)) e = Some (x, k) \<and>
           segmentStyle (render_for ?w 0 ?t (rtlStateChange True s)) e = Some (- x, k)"
    by (rule render_for_mirror) simp_all
  moreover have "nat (max 0 (segmentCount s)) = nat (segmentCount s)"
    by (cases "0 \<le> segmentCount s") simp_all
  ultimately have a: "\<forall>e \<in> set (take (nat (segmentCount s)) (segments s)).
      \<exists>x k. segmentStyle (render a (rtlStateChange False s)) e = Some (x, k) \<and>
            segmentStyle (render a (rtlStateChange True s)) e = Some (- x, k)"
    by (simp add: render_def Let_def layout_ignores_direction getPrevEllipsisCount_def)
  have b: "getSegmentWidth (rtlStateChange True s) = getSegmentWidth (rtlStateChange False s)"
    by (simp add: layout_ignores_direction)
  obtain mT where mT: "render a (rtlStateChange True s) =
      (rtlStateChange True s)\<lparr>segmentStyle := mT, animateClass := a,
         renderLog := renderLog (rtlStateChange True s) @ [a]\<rparr>"
    using render_frame by blast
  obtain mF where mF: "render a (rtlStateChange False s) =
      (rtlStateChange False s)\<lparr>segmentStyle := mF, animateClass := a,
         renderLog := renderLog (rtlStateChange False s) @ [a]\<rparr>"
    using render_frame by blast
  have c: "(render a (rtlStateChange True s))\<lparr>segmentStyle := m, storeRtl := r, dirRtl := r\<rparr> =
      (render a (rtlStateChange False s))\<lparr>segmentStyle := m, storeRtl := r, dirRtl := r\<rparr>"
    unfolding mT mF by (simp add: rtlStateChange_def onRtlStateUpdate_def)
  from a b c show ?thesis by blast
qed

theorem direction_mirrors_offsets_witness:
  "(1::nat) \<in> set (take (nat (segmentCount (story 3))) (segments (story 3))) \<and>
   segmentStyle (render False (rtlStateChange False (story 3))) 1 = Some (120, 59) \<and>
   segmentStyle (render False (rtlStateChange True (story 3))) 1 = Some (- 120, 59)"
proof -
  have mem: "(1::nat) \<in> set (take (nat (segmentCount (story 3))) (segments (story 3)))"
    by (simp add: story_registry)
  have w: "getSegmentWidth (rtlStateChange False (story 3)) = 118"
    by (simp add: getSegmentWidth_def getNextEllipsisCount_def getPrevEllipsisCount_def
        story_registry constants)
  have ltr: "segmentStyle (render False (rtlStateChange False (story 3))) 1 = Some (120, 59)"
    by (simp add: render_def Let_def w getPrevEllipsisCount_def render_for_step render_for_stop
        story_registry constants)
  from direction_mirrors_offsets [of "story 3" False] mem
  obtain x k where
    "segmentStyle (render False (rtlStateChange False (story 3))) 1 = Some (x, k)"
    "segmentStyle (render False (rtlStateChange True (story 3))) 1 = Some (- x, k)"
    by blast
  with ltr have "segmentStyle (render False (rtlStateChange True (story 3))) 1 = Some (- 120, 59)"
    by simp
  with mem ltr show ?thesis by simp
qed

section \<open>The window invariant\<close>

text \<open>While the list of pages stays as it is, progress updates, replay, resize and a
  change of direction keep the window inside the story.\<close>

lemma windowOk_updateProgress:
  assumes ok: "registryOk s" and w: "windowOk s"
  shows "windowOk (snd (updateProgress k p u s))"
proof (cases "segmentIdMap s k")
  case None
  then show ?thesis using w by (simp add: updateProgress_None)
next
  case (Some i)
  with ok have i: "0 \<le> i" "i < segmentCount s"
    by (auto simp: registryOk_def)
  have r: "0 \<le> i mod 20" "i mod 20 < 20" by simp_all
  from w have f: "0 \<le> firstExpandedSegmentIndex s"
    "firstExpandedSegmentIndex s \<le> max 0 (segmentCount s - 20)"
    by (simp_all add: windowOk_def MAX_SEGMENTS_def)
  define fm where "fm =
    (if activeSegmentIndex s = 0 then
       (if i > 20 \<and> i + 20 < segmentCount s then i - i mod 20
        else if i > 20 then segmentCount s - 20
        else firstExpandedSegmentIndex s)
     else firstExpandedSegmentIndex s)"
  have fm0: "0 \<le> fm"
    unfolding fm_def using i r f by auto
  have fm1: "fm \<le> max 0 (segmentCount s - 20)"
    unfolding fm_def using i r f by auto
  have e: "firstExpandedSegmentIndex (snd (updateProgress k p u s)) =
      (if i \<ge> fm + 20 then (if fm + 24 < segmentCount s then fm + 5 else segmentCount s - 20)
       else if i < fm then max 0 (fm - 5)
       else fm)"
    by (simp only: updateProgress_first [OF Some] Let_def fm_def)
  have "0 \<le> firstExpandedSegmentIndex (snd (updateProgress k p u s))"
    unfolding e using fm0 fm1 i by auto
  moreover have "firstExpandedSegmentIndex (snd (updateProgress k p u s))
      \<le> max 0 (segmentCount (snd (updateProgress k p u s)) - 20)"
    unfolding e using fm0 fm1 i by auto
  ultimately show ?thesis
    by (simp add: windowOk_def MAX_SEGMENTS_def)
qed

lemma windowOk_replay: "0 \<le> segmentCount s \<Longrightarrow> windowOk (replay s)"
  by (simp add: windowOk_def replay_def)

lemma windowOk_onResize: "windowOk s \<Longrightarrow> windowOk (onResize w s)"
  by (simp add: windowOk_def onResize_def)

lemma windowOk_rtlStateChange: "windowOk s \<Longrightarrow> windowOk (rtlStateChange b s)"
  by (simp add: windowOk_def)

lemma windowOk_build_constructor:
  "distinct ks \<Longrightarrow> windowOk (build ks w (constructor rtl))"
  by (simp add: windowOk_def build_constructor_fresh)

lemma windowOk_small:
  assumes "windowOk s" and "segmentCount s \<le> MAX_SEGMENTS"
  shows "firstExpandedSegmentIndex s = 0" and "getPrevEllipsisCount s = 0"
    and "getNextEllipsisCount s = 0"
proof -
  from assms show f: "firstExpandedSegmentIndex s = 0"
    by (simp add: windowOk_def)
  show "getPrevEllipsisCount s = 0" by (simp add: getPrevEllipsisCount_def f)
  show "getNextEllipsisCount s = 0"
    using assms(2) by (simp add: getNextEllipsisCount_def f Let_def)
qed

section \<open>A shorter list of pages\<close>

lemma onPage45_facts:
  "reachable onPage45"
  "isBuilt onPage45"
  "segmentCount onPage45 = 50"
  "activeSegmentIndex onPage45 = 45"
  "activeSegmentProgress onPage45 = 1 / 2"
  "activeSegmentId onPage45 = pageId 45"
  "firstExpandedSegmentIndex onPage45 = 30"
  "windowOk onPage45"
proof -
  have m: "segmentIdMap (story 50) (pageId 45) = Some 45"
    using story_pageId [of 45 50] by simp
  show "reachable onPage45"
    unfolding onPage45_def by (intro reach_updateProgress reachable_story)
  show "isBuilt onPage45" by (simp add: onPage45_def)
  show "segmentCount onPage45 = 50" by (simp add: onPage45_def story_registry)
  show "activeSegmentIndex onPage45 = 45"
    unfolding onPage45_def using m by (rule updateProgress_active)
  show "activeSegmentProgress onPage45 = 1 / 2"
    unfolding onPage45_def using m by (rule updateProgress_active)
  show "activeSegmentId onPage45 = pageId 45"
    unfolding onPage45_def using m by (rule updateProgress_active)
  show f: "firstExpandedSegmentIndex onPage45 = 30"
    unfolding onPage45_def updateProgress_first [OF m] by (simp add: story_registry)
  show "windowOk onPage45"
    by (simp add: windowOk_def f MAX_SEGMENTS_def) (simp add: onPage45_def story_registry)
qed

text \<open>
  C5, at the input where the code leaves the invariant. A story of fifty pages is at page
  45, with the window at 30, when the store delivers a list of page ids that holds page 45
  only. The callback clears the registry, registers the page at index 0 and updates its
  progress; the overflow check then moves the stale window back by one step. The state is
  reachable, it has one segment, and its window starts at 25 with three ellipses before
  it.
\<close>

theorem stale_window_after_shorter_list:
  "reachable shrunk \<and> fst (onPageIds [pageId 45] onPage45) = Inr () \<and>
   windowOk onPage45 \<and> segmentCount shrunk = 1 \<and> activeSegmentIndex shrunk = 0 \<and>
   firstExpandedSegmentIndex shrunk = 25 \<and> getPrevEllipsisCount shrunk = 3 \<and>
   \<not> windowOk shrunk"
proof -
  let ?t = "fold addPageId [pageId 45] (clear onPage45)"
  have d: "distinct [pageId 45]" by simp
  have r: "segmentIdMap ?t (pageId 45) = Some 0"
    using fold_addPageId_clear(2) [OF d, of onPage45] by simp
  have n: "segmentCount ?t = 1"
    using fold_addPageId_clear(1) [OF d, of onPage45] by simp
  have run: "onPageIds [pageId 45] onPage45 = updateProgress (pageId 45) (1 / 2) True ?t"
    by (simp add: onPageIds_built onPage45_facts)
  have a: "reachable shrunk"
    unfolding shrunk_def by (intro reach_onPageIds onPage45_facts)
  have b: "fst (onPageIds [pageId 45] onPage45) = Inr ()"
    unfolding run using r by (simp add: updateProgress_Some)
  have c: "segmentCount shrunk = 1"
    unfolding shrunk_def run using n by simp
  have e: "activeSegmentIndex shrunk = 0"
    unfolding shrunk_def run using r by (rule updateProgress_active)
  have f: "firstExpandedSegmentIndex shrunk = 25"
    unfolding shrunk_def run updateProgress_first [OF r]
    by (simp add: onPage45_facts)
  have g: "getPrevEllipsisCount shrunk = 3"
    by (simp add: getPrevEllipsisCount_def f)
  have h: "\<not> windowOk shrunk"
    by (simp add: windowOk_def f c MAX_SEGMENTS_def)
  from a b c e f g h onPage45_facts(8) show ?thesis by simp
qed

section \<open>The segments array after a reset\<close>

lemma checkIndexForOverflow_outside:
  "e \<notin> set (take (nat (segmentCount s)) (segments s)) \<Longrightarrow>
   segmentStyle (checkIndexForOverflow s) e = segmentStyle s e"
  by (simp add: checkIndexForOverflow_def Let_def render_outside)

lemma updateProgress_segmentStyle_outside:
  assumes "e \<notin> set (take (nat (segmentCount s)) (segments s))"
  shows "segmentStyle (snd (updateProgress k p u s)) e = segmentStyle s e"
proof (cases "segmentIdMap s k")
  case None
  then show ?thesis by (simp add: updateProgress_None)
next
  case (Some i)
  then show ?thesis
    using assms
    by (simp add: updateProgress_Some Let_def checkIndexForOverflow_outside render_outside)
qed

lemma afterFirstPage_document:
  "isBuilt afterFirstPage"
  "activeSegmentId afterFirstPage = pageId 0"
  "segments afterFirstPage = [0, 1, 2]"
  "rootChildren afterFirstPage = [0, 1, 2]"
  "nextElement afterFirstPage = 3"
  "segmentStyle afterFirstPage 3 = None"
proof -
  have m: "segmentIdMap (story 3) (pageId 0) = Some 0"
    using story_pageId [of 0 3] by simp
  have u: "[0..<3] = [0, 1, 2::nat]" by (simp add: upt_rec)
  show "isBuilt afterFirstPage" by (simp add: afterFirstPage_def)
  show "activeSegmentId afterFirstPage = pageId 0"
    unfolding afterFirstPage_def using m by (rule updateProgress_active)
  show "segments afterFirstPage = [0, 1, 2]"
    by (simp add: afterFirstPage_def story_registry u)
  show "rootChildren afterFirstPage = [0, 1, 2]"
    by (simp add: afterFirstPage_def story_registry u)
  show "nextElement afterFirstPage = 3"
    by (simp add: afterFirstPage_def story_registry)
  have "segmentStyle afterFirstPage 3 = segmentStyle (story 3) 3"
    unfolding afterFirstPage_def
    by (rule updateProgress_segmentStyle_outside) (simp add: story_registry)
  then show "segmentStyle afterFirstPage 3 = None" by simp
qed

text \<open>
  C2, at the input where the code leaves the invariant. \<^verbatim>\<open>clear_()\<close> empties the id map,
  the count and the children of the root, but keeps the array \<^verbatim>\<open>segments_\<close>. A story of
  three pages is on its first page when the store delivers a list that holds this page
  only. Afterwards the page is registered at index 0 and its element, the only child of the
  root, is the element 3; but \<^verbatim>\<open>segments_\<close> still starts with the three elements that were
  removed, so \<^verbatim>\<open>segments_[0]\<close> is not the segment of the page, and a relayout (here the
  one of a replay) gives the segment on display no transform at all.
\<close>

theorem stale_segments_after_clear:
  "segments (clear s) = segments s \<and>
   reachable relisted \<and> fst (onPageIds [pageId 0] afterFirstPage) = Inr () \<and>
   segmentCount relisted = 1 \<and> segmentIdMap relisted (pageId 0) = Some 0 \<and>
   rootChildren relisted = [3] \<and> segments relisted = [0, 1, 2, 3] \<and>
   js_index (rootChildren relisted) 0 = Some 3 \<and> js_index (segments relisted) 0 = Some 0 \<and>
   segmentStyle (replay relisted) 3 = None"
proof -
  let ?t = "fold addPageId [pageId 0] (clear afterFirstPage)"
  have d: "distinct [pageId 0]" by simp
  note f = fold_addPageId_clear [OF d, of afterFirstPage]
  have r: "segmentIdMap ?t (pageId 0) = Some 0" using f(2) by simp
  have n: "segmentCount ?t = 1" using f(1) by simp
  have c: "rootChildren ?t = [3]" using f(3) by (simp add: afterFirstPage_document)
  have g: "segments ?t = [0, 1, 2, 3]" using f(4) by (simp add: afterFirstPage_document)
  have st: "segmentStyle ?t 3 = None" by (simp add: afterFirstPage_document)
  have run: "onPageIds [pageId 0] afterFirstPage = updateProgress (pageId 0) 1 True ?t"
    by (simp add: onPageIds_built afterFirstPage_document afterFirstPage_facts)
  have 1: "reachable relisted"
    unfolding relisted_def
    by (intro reach_onPageIds afterFirstPage_facts afterFirstPage_document)
  have 2: "fst (onPageIds [pageId 0] afterFirstPage) = Inr ()"
    unfolding run using r by (simp add: updateProgress_Some)
  have 3: "segmentCount relisted = 1" unfolding relisted_def run using n by simp
  have 4: "segmentIdMap relisted (pageId 0) = Some 0" unfolding relisted_def run using r by simp
  have 5: "rootChildren relisted = [3]" unfolding relisted_def run using c by simp
  have 6: "segments relisted = [0, 1, 2, 3]" unfolding relisted_def run using g by simp
  have 7: "js_index (rootChildren relisted) 0 = Some 3" by (simp add: js_index_def 5)
  have 8: "js_index (segments relisted) 0 = Some 0" by (simp add: js_index_def 6)
  have "segmentStyle relisted 3 = segmentStyle ?t 3"
    unfolding relisted_def run
    by (rule updateProgress_segmentStyle_outside) (use n g in simp)
  moreover have "segmentStyle (replay relisted) 3 = segmentStyle relisted 3"
    unfolding replay_def
    by (subst render_outside) (simp_all add: 3 6)
  ultimately have 9: "segmentStyle (replay relisted) 3 = None" using st by simp
  from 1 2 3 4 5 6 7 8 9 show ?thesis by simp
qed

end
